theory Spec2Isabelle
  imports Complex_Main "HOL-Library.Multiset"
begin

section \<open>The round-based location guessing game of app.js\<close>

text \<open>
  A shallow embedding of \<^verbatim>\<open>src/app.js\<close>. A JavaScript number is an IEEE 754 double:
  a finite double is modelled by the real number it denotes, and every arithmetic result
  is rounded to the nearest double (\<open>fl\<close>), so that the scorer and the shuffle compute
  what the code computes. A number that can be NaN has the type \<open>'a number\<close>. The round
  counters are small integers and are modelled by \<^typ>\<open>int\<close>.
\<close>

subsection \<open>IEEE doubles\<close>

text \<open>Rounding to the nearest integer, a tie to the even one.\<close>

definition round_even :: "real \<Rightarrow> int" where
  "round_even y =
     (let f = \<lfloor>y\<rfloor> in
      if y - of_int f < 1 / 2 then f
      else if 1 / 2 < y - of_int f then f + 1
      else if even f then f else f + 1)"

text \<open>
  The exponent of the binade of \<open>x\<close>, not below that of the subnormal numbers, and the
  distance between neighbouring doubles there (53 significant bits).
\<close>

definition expo :: "real \<Rightarrow> int" where
  "expo x = max \<lfloor>log 2 \<bar>x\<bar>\<rfloor> (- 1022)"

definition ulp :: "real \<Rightarrow> real" where
  "ulp x = 2 powi (expo x - 52)"

text \<open>
  The double nearest to \<open>x\<close> (round to nearest, ties to even), with gradual underflow.
  The exponent is not bounded above here: a result of magnitude \<open>2 ^ 1024\<close> or more stands
  for an overflow to an infinity, and the functions below test for it where it can occur.
\<close>

definition fl :: "real \<Rightarrow> real" where
  "fl x = (if x = 0 then 0 else of_int (round_even (x / ulp x)) * ulp x)"

text \<open>The rounded value of \<open>x\<close> is a finite double (no overflow).\<close>

definition finite_result :: "real \<Rightarrow> bool" where
  "finite_result x \<longleftrightarrow> \<bar>fl x\<bar> < 2 ^ 1024"

definition double :: "real \<Rightarrow> bool" where
  "double x \<longleftrightarrow> fl x = x \<and> \<bar>x\<bar> < 2 ^ 1024"

text \<open>A number that may be NaN; NaN absorbs in a sum.\<close>

datatype 'a number = Num 'a | NaN

instantiation number :: (zero) zero
begin

definition zero_number :: "'a number" where
  "zero_number = Num 0"

instance ..

end

instantiation number :: (plus) plus
begin

fun plus_number :: "'a number \<Rightarrow> 'a number \<Rightarrow> 'a number" where
  "plus_number (Num a) (Num b) = Num (a + b)"
| "plus_number NaN y = NaN"
| "plus_number x NaN = NaN"

instance ..

end

instance number :: (comm_monoid_add) comm_monoid_add
proof
  fix a b c :: "'a number"
  show "a + b + c = a + (b + c)"
    by (cases a; cases b; cases c) (simp_all add: add.assoc)
  show "a + b = b + a"
    by (cases a; cases b) (simp_all add: add.commute)
  show "0 + a = a"
    by (cases a) (simp_all add: zero_number_def)
qed

subsection \<open>Data\<close>

text \<open>An entry of \<^verbatim>\<open>images.json\<close>; \<open>hint\<close> is optional.\<close>

record location =
  url :: string
  name :: string
  hint :: "string option"
  lat :: real
  lng :: real

text \<open>A Leaflet \<^verbatim>\<open>LatLng\<close>: latitude first, longitude second.\<close>

type_synonym latlng = "real \<times> real"

datatype alert = NoImagesAlert | GameOverAlert "int number"

datatype error = TypeError

text \<open>
  The module-level variables of app.js together with the parts of the page the handlers
  write: the two buttons' \<^verbatim>\<open>disabled\<close> flags, the text of the display elements (kept as
  the value that is displayed) and the list of alerts shown so far. The running total is
  a sum of integers far below \<open>2 ^ 53\<close>, or NaN once a NaN has been added. Leaflet's own view
  state (\<^verbatim>\<open>setView\<close>, \<^verbatim>\<open>fitBounds\<close>) and the hint's visibility toggle are not part
  of the model; no handler reads them.
\<close>

record state =
  images :: "location list"
  currentIndex :: int
  roundsTotal :: int
  roundNum :: int
  totalScore :: "int number"
  hasGuessed :: bool
  guessMarker :: "latlng option"
  actualMarker :: "latlng option"
  line :: "(latlng \<times> latlng) option"
  startBtn_disabled :: bool
  nextBtn_disabled :: bool
  roundEl :: int
  scoreEl :: "int number"
  distanceEl :: "real number option"
  roundScoreEl :: "int number option"
  sceneImage_src :: string
  sceneImage_alt :: string
  hintEl :: string
  locationCreditEl :: string
  alerts :: "alert list"

text \<open>
  A handler either runs to its end or stops at a \<^verbatim>\<open>TypeError\<close> (a property read on
  \<^verbatim>\<open>undefined\<close>); in both cases the assignments made so far stay.
\<close>

datatype result = Returned state | Threw error state

fun state_of :: "result \<Rightarrow> state" where
  "state_of (Returned s) = s"
| "state_of (Threw e s) = s"

text \<open>\<^verbatim>\<open>arr[i]\<close> for an integer \<open>i\<close>: \<^verbatim>\<open>undefined\<close> (here \<open>None\<close>) out of range.\<close>

definition index :: "'a list \<Rightarrow> int \<Rightarrow> 'a option" where
  "index arr i = (if 0 \<le> i \<and> i < int (length arr) then Some (arr ! nat i) else None)"

subsection \<open>Scorer\<close>

text \<open>
  \<^verbatim>\<open>Math.sqrt\<close> is correctly rounded. \<^verbatim>\<open>Math.sin\<close>, \<^verbatim>\<open>Math.cos\<close> and
  \<^verbatim>\<open>Math.atan2\<close> are approximations chosen by the engine; the model takes the correctly
  rounded value, and the theorems below use of it only that the result is rounded from the
  exact one. \<open>atan2\<close> is the exact function on real arguments.
\<close>

definition Math_PI :: real where
  "Math_PI = 884279719003555 / 281474976710656"

definition Math_sin :: "real \<Rightarrow> real" where
  "Math_sin x = fl (sin x)"

definition Math_cos :: "real \<Rightarrow> real" where
  "Math_cos x = fl (cos x)"

definition Math_sqrt :: "real \<Rightarrow> real" where
  "Math_sqrt x = fl (sqrt x)"

definition atan2 :: "real \<Rightarrow> real \<Rightarrow> real" where
  "atan2 y x =
     (if 0 < x then arctan (y / x)
      else if x < 0 then (if 0 \<le> y then arctan (y / x) + pi else arctan (y / x) - pi)
      else if 0 < y then pi / 2
      else if y < 0 then - (pi / 2)
      else 0)"

definition Math_atan2 :: "real \<Rightarrow> real \<Rightarrow> real" where
  "Math_atan2 y x = fl (atan2 y x)"

text \<open>
  \<^verbatim>\<open>toRad\<close> (line 113): \<open>v * Math.PI / 180\<close>, the product first. When the product
  overflows the code has an infinity; in \<^verbatim>\<open>haversine\<close> every infinity reaches
  \<^verbatim>\<open>Math.sin\<close> or \<^verbatim>\<open>Math.cos\<close>, which return NaN for it, so the model goes to NaN at
  once.
\<close>

definition toRad :: "real \<Rightarrow> real number" where
  "toRad v =
     (if finite_result (v * Math_PI) then Num (fl (fl (v * Math_PI) / 180)) else NaN)"

text \<open>
  Lines 114 to 116: the constant \<open>a\<close>. The products are evaluated from the left, each
  rounded; the coordinates are finite doubles.
\<close>

definition haversine_a :: "real \<Rightarrow> real \<Rightarrow> real \<Rightarrow> real \<Rightarrow> real number" where
  "haversine_a lat1 lon1 lat2 lon2 =
     (if finite_result (lat2 - lat1) \<and> finite_result (lon2 - lon1) then
        case (toRad (fl (lat2 - lat1)), toRad (fl (lon2 - lon1)), toRad lat1, toRad lat2) of
          (Num dLat, Num dLon, Num rad1, Num rad2) \<Rightarrow>
            let sLat = Math_sin (fl (dLat / 2));
                sLon = Math_sin (fl (dLon / 2))
            in Num (fl (fl (sLat * sLat)
                        + fl (fl (fl (Math_cos rad1 * Math_cos rad2) * sLon) * sLon)))
        | _ \<Rightarrow> NaN
      else NaN)"

text \<open>
  Lines 117 and 118 for a given \<open>a\<close>: \<^verbatim>\<open>Math.sqrt\<close> of a negative number is NaN, and
  NaN goes through \<^verbatim>\<open>Math.atan2\<close> and the products.
\<close>

definition haversine_c :: "real \<Rightarrow> real number" where
  "haversine_c a =
     (let R = 6371 in
      if a < 0 \<or> fl (1 - a) < 0 then NaN
      else Num (fl (R * fl (2 * Math_atan2 (Math_sqrt a) (Math_sqrt (fl (1 - a)))))))"

definition haversine :: "real \<Rightarrow> real \<Rightarrow> real \<Rightarrow> real \<Rightarrow> real number" where
  "haversine lat1 lon1 lat2 lon2 =
     (case haversine_a lat1 lon1 lat2 lon2 of NaN \<Rightarrow> NaN | Num a \<Rightarrow> haversine_c a)"

text \<open>
  \<^verbatim>\<open>computeScore\<close> on a distance that is a number: the quotient, the difference and the
  product of line 126 are rounded; \<^verbatim>\<open>Math.min\<close> and \<^verbatim>\<open>Math.max\<close> are exact, and
  \<^verbatim>\<open>Math.round\<close> is the nearest integer, halves upwards, which is \<^const>\<open>round\<close>:
  \<open>round x = \<lfloor>x + 1/2\<rfloor>\<close>.
\<close>

definition computeScore :: "real \<Rightarrow> int" where
  "computeScore distanceKm =
     (let max' = 5000 :: int;
          maxDist = 20000 :: real
      in if distanceKm \<le> 1 then max'
         else round (max 0 (fl (real_of_int max' * fl (1 - min (fl (distanceKm / maxDist)) 1)))))"

text \<open>
  \<^verbatim>\<open>computeScore\<close> on any distance: for NaN the comparison of line 125 is false and
  every operation of line 126 gives NaN.
\<close>

definition computeScore_num :: "real number \<Rightarrow> int number" where
  "computeScore_num distanceKm =
     (case distanceKm of NaN \<Rightarrow> NaN | Num d \<Rightarrow> Num (computeScore d))"

text \<open>The scoring curve in the words of the specification, in exact arithmetic.\<close>

definition score_spec :: "real \<Rightarrow> int" where
  "score_spec d = (if d \<le> 1 then 5000 else round (max 0 (5000 * (1 - min (d / 20000) 1))))"

subsection \<open>Shuffling\<close>

text \<open>
  \<^verbatim>\<open>Math.random\<close> is a parameter: \<open>rnd k\<close> is the value of the \<open>k\<close>-th call from now, a
  double in \<open>[0, 1)\<close>. The loop of \<^verbatim>\<open>shuffle\<close> runs \<open>i\<close> from \<open>length arr - 1\<close>
  down to \<open>1\<close>; \<open>j\<close> is the floor of the rounded product; the destructuring assignment
  first reads both cells and then writes \<open>arr[i]\<close>, then \<open>arr[j]\<close>.
\<close>

fun shuffle_loop :: "nat \<Rightarrow> (nat \<Rightarrow> real) \<Rightarrow> 'a list \<Rightarrow> 'a list" where
  "shuffle_loop 0 rnd arr = arr"
| "shuffle_loop (Suc i) rnd arr =
     (let j = nat \<lfloor>fl (rnd 0 * (real (Suc i) + 1))\<rfloor>
      in shuffle_loop i (\<lambda>k. rnd (Suc k)) (arr[Suc i := arr ! j, j := arr ! Suc i]))"

definition shuffle :: "(nat \<Rightarrow> real) \<Rightarrow> 'a list \<Rightarrow> 'a list" where
  "shuffle rnd arr = shuffle_loop (length arr - 1) rnd arr"

text \<open>
  The index the \<open>k\<close>-th iteration of \<^verbatim>\<open>shuffle\<close> chooses on an array of \<open>n\<close> elements
  (there \<open>i = n - 1 - k\<close>).
\<close>

definition choice :: "nat \<Rightarrow> (nat \<Rightarrow> real) \<Rightarrow> nat \<Rightarrow> nat" where
  "choice n rnd k = nat \<lfloor>fl (rnd k * (real (n - 1 - k) + 1))\<rfloor>"

text \<open>What \<^verbatim>\<open>Math.random\<close> returns: doubles, at least 0 and below 1.\<close>

definition Math_random :: "(nat \<Rightarrow> real) \<Rightarrow> bool" where
  "Math_random rnd \<longleftrightarrow> (\<forall>k. double (rnd k) \<and> 0 \<le> rnd k \<and> rnd k < 1)"

subsection \<open>Round controller\<close>

text \<open>
  \<^verbatim>\<open>loadDataset\<close> from the point where the fetch has settled: \<open>Some arr\<close> is the parsed
  array, \<open>None\<close> a rejected fetch or a body that does not parse.
\<close>

definition loadDataset :: "location list option \<Rightarrow> (nat \<Rightarrow> real) \<Rightarrow> state \<Rightarrow> state" where
  "loadDataset res rnd s =
     (case res of
        Some arr \<Rightarrow> s\<lparr>images := shuffle rnd arr\<rparr>
      | None \<Rightarrow> s\<lparr>images := []\<rparr>)"

definition onMapClick :: "latlng \<Rightarrow> state \<Rightarrow> result" where
  "onMapClick latlng s =
     (if roundNum s = 0 then Returned s
      else if hasGuessed s then Returned s
      else
        let s1 = s\<lparr>guessMarker := Some latlng\<rparr> in
        case index (images s1) (currentIndex s1) of
          None \<Rightarrow> Threw TypeError s1
        | Some actual \<Rightarrow>
            let actualLatLng = (lat actual, lng actual);
                s2 = s1\<lparr>actualMarker := Some actualLatLng,
                        line := Some (latlng, actualLatLng)\<rparr>;
                distKm = haversine (fst latlng) (snd latlng) (lat actual) (lng actual);
                points = computeScore_num distKm;
                s3 = s2\<lparr>distanceEl := Some distKm, roundScoreEl := Some points\<rparr>;
                s4 = s3\<lparr>totalScore := totalScore s3 + points\<rparr>;
                s5 = s4\<lparr>scoreEl := totalScore s4\<rparr>;
                s6 = s5\<lparr>locationCreditEl := ''Answer location: '' @ name actual\<rparr>
            in Returned (s6\<lparr>hasGuessed := True, nextBtn_disabled := False\<rparr>))"

definition showImage :: "location \<Rightarrow> state \<Rightarrow> state" where
  "showImage imageObj s =
     s\<lparr>sceneImage_src := url imageObj,
       sceneImage_alt := (if name imageObj = [] then ''Scene'' else name imageObj),
       hintEl := (case hint imageObj of None \<Rightarrow> [] | Some h \<Rightarrow> h),
       locationCreditEl := []\<rparr>"

definition resetRoundState :: "state \<Rightarrow> state" where
  "resetRoundState s =
     s\<lparr>guessMarker := None, actualMarker := None, line := None,
       distanceEl := None, roundScoreEl := None,
       hasGuessed := False, nextBtn_disabled := True\<rparr>"

definition endGame :: "state \<Rightarrow> state" where
  "endGame s =
     s\<lparr>alerts := alerts s @ [GameOverAlert (totalScore s)],
       startBtn_disabled := False, nextBtn_disabled := True,
       roundNum := 0, roundEl := 0,
       sceneImage_src := [], hintEl := [], locationCreditEl := []\<rparr>"

definition proceedNextRound :: "state \<Rightarrow> result" where
  "proceedNextRound s =
     (let s1 = s\<lparr>roundNum := roundNum s + 1\<rparr> in
      if roundNum s1 > roundsTotal s1 \<or> roundNum s1 > int (length (images s1))
      then Returned (endGame s1)
      else
        let s2 = s1\<lparr>roundEl := roundNum s1\<rparr>;
            s3 = s2\<lparr>currentIndex := roundNum s2 - 1\<rparr>
        in case index (images s3) (currentIndex s3) of
             None \<Rightarrow> Threw TypeError s3
           | Some imageObj \<Rightarrow> Returned (resetRoundState (showImage imageObj s3)))"

text \<open>
  \<^verbatim>\<open>startGame\<close> does nothing before \<^verbatim>\<open>await loadDataset()\<close> settles; this is
  everything it does from then on, run without interruption (the continuations are
  microtasks).
\<close>

definition startGame :: "location list option \<Rightarrow> (nat \<Rightarrow> real) \<Rightarrow> state \<Rightarrow> result" where
  "startGame res rnd s =
     (let s1 = loadDataset res rnd s in
      if length (images s1) = 0
      then Returned (s1\<lparr>alerts := alerts s1 @ [NoImagesAlert]\<rparr>)
      else proceedNextRound
             (s1\<lparr>roundNum := 0, totalScore := 0, scoreEl := 0,
                 nextBtn_disabled := True, startBtn_disabled := True\<rparr>))"

text \<open>The click listener of the Next button.\<close>

definition nextBtn_click :: "state \<Rightarrow> result" where
  "nextBtn_click s =
     (if \<not> hasGuessed s then Returned s
      else if roundNum s \<ge> roundsTotal s then Returned (endGame s)
      else proceedNextRound s)"

subsection \<open>The page as an event system\<close>

text \<open>
  What the browser can deliver to the page. A click on a disabled button is not
  delivered. \<open>StartClick\<close> calls \<^verbatim>\<open>startGame\<close>, which suspends at its
  \<^verbatim>\<open>await\<close> without having written anything; the number of suspended calls is kept
  beside the state, and \<open>LoadSettled\<close> resumes one of them with the outcome of its fetch
  and the random numbers its shuffle draws.
\<close>

datatype event =
    StartClick
  | LoadSettled "location list option" "nat \<Rightarrow> real"
  | MapClick latlng
  | NextClick

definition mapClick :: "latlng \<Rightarrow> state \<Rightarrow> state" where
  "mapClick latlng s = state_of (onMapClick latlng s)"

definition nextClick :: "state \<Rightarrow> state" where
  "nextClick s = (if nextBtn_disabled s then s else state_of (nextBtn_click s))"

fun dispatch :: "event \<Rightarrow> nat \<times> state \<Rightarrow> nat \<times> state" where
  "dispatch StartClick (p, s) = (if startBtn_disabled s then (p, s) else (Suc p, s))"
| "dispatch (LoadSettled res rnd) (p, s) =
     (case p of 0 \<Rightarrow> (p, s) | Suc p' \<Rightarrow> (p', state_of (startGame res rnd s)))"
| "dispatch (MapClick latlng) (p, s) = (p, mapClick latlng s)"
| "dispatch NextClick (p, s) = (p, nextClick s)"

fun run :: "event list \<Rightarrow> nat \<times> state \<Rightarrow> nat \<times> state" where
  "run [] c = c"
| "run (ev # evs) c = run evs (dispatch ev c)"

text \<open>
  The state when the script has been loaded (lines 4 to 10). The page itself is not among
  the sources: the Start button is taken as enabled (no game could start otherwise), the
  Next button as disabled and the displays as empty.
\<close>

definition init_state :: state where
  "init_state =
     \<lparr>images = [], currentIndex = - 1, roundsTotal = 5, roundNum = 0, totalScore = 0,
      hasGuessed = False, guessMarker = None, actualMarker = None, line = None,
      startBtn_disabled = False, nextBtn_disabled = True, roundEl = 0, scoreEl = 0,
      distanceEl = None, roundScoreEl = None, sceneImage_src = [], sceneImage_alt = [],
      hintEl = [], locationCreditEl = [], alerts = []\<rparr>"

subsection \<open>Playing rounds\<close>

text \<open>One round as the player sees it: a click on the map, then a click on Next.\<close>

definition play_round :: "latlng \<Rightarrow> state \<Rightarrow> state" where
  "play_round latlng s = nextClick (mapClick latlng s)"

fun play :: "latlng list \<Rightarrow> state \<Rightarrow> state" where
  "play [] s = s"
| "play (g # gs) s = play gs (play_round g s)"

text \<open>The points a guess earns against a location (lines 95 and 96).\<close>

definition round_points :: "latlng \<Rightarrow> location \<Rightarrow> int number" where
  "round_points latlng actual =
     computeScore_num (haversine (fst latlng) (snd latlng) (lat actual) (lng actual))"

text \<open>
  Round \<open>j + 1\<close> is on and waits for its guess: both guards of \<^verbatim>\<open>onMapClick\<close> pass
  and \<open>images[currentIndex]\<close> is the \<open>j\<close>-th location.
\<close>

definition round_active :: "nat \<Rightarrow> state \<Rightarrow> bool" where
  "round_active j s \<longleftrightarrow>
     roundNum s = int j + 1 \<and> currentIndex s = int j \<and> \<not> hasGuessed s
     \<and> nextBtn_disabled s \<and> startBtn_disabled s
     \<and> int j < roundsTotal s \<and> j < length (images s)"

text \<open>
  The state \<^verbatim>\<open>endGame\<close> leaves: no round, Start enabled, Next disabled, and the last
  alert reports the total.
\<close>

definition game_over :: "state \<Rightarrow> bool" where
  "game_over s \<longleftrightarrow>
     roundNum s = 0 \<and> \<not> startBtn_disabled s \<and> nextBtn_disabled s
     \<and> alerts s \<noteq> [] \<and> last (alerts s) = GameOverAlert (totalScore s)"

text \<open>Two entries of a dataset, for concrete runs.\<close>

definition paris :: location where
  "paris = \<lparr>url = ''paris.jpg'', name = ''Paris'', hint = Some ''Europe'',
            lat = 48.8566, lng = 2.3522\<rparr>"

definition quito :: location where
  "quito = \<lparr>url = ''quito.jpg'', name = ''Quito'', hint = None,
            lat = - 0.1807, lng = - 78.4678\<rparr>"

subsection \<open>Runs and invariants\<close>

text \<open>The events that begin a game: a load that settles with at least one location.\<close>

fun game_start :: "event \<Rightarrow> bool" where
  "game_start (LoadSettled (Some (x # xs)) rnd) = True"
| "game_start ev = False"

text \<open>The events after which \<^verbatim>\<open>images\<close> is empty: a load that fails or finds nothing.\<close>

fun empty_load :: "event \<Rightarrow> bool" where
  "empty_load (LoadSettled None rnd) = True"
| "empty_load (LoadSettled (Some []) rnd) = True"
| "empty_load ev = False"

text \<open>A game with the one location \<open>paris\<close>, played to its end.\<close>

definition finished_game :: state where
  "finished_game =
     snd (run [StartClick, LoadSettled (Some [paris]) (\<lambda>_. 0), MapClick (0, 0), NextClick]
            (0, init_state))"

text \<open>
  Start is clicked twice before the first fetch settles (the button is disabled only
  after the \<^verbatim>\<open>await\<close>); the first fetch delivers one location and round 1 begins.
\<close>

definition double_start :: "event list" where
  "double_start = [StartClick, StartClick, LoadSettled (Some [paris]) (\<lambda>_. 0)]"

text \<open>Then the second fetch fails while round 1 waits for its guess.\<close>

definition stale_round :: state where
  "stale_round = snd (run (double_start @ [LoadSettled None (\<lambda>_. 0)]) (0, init_state))"

text \<open>The counters: the round number is in range and selects \<open>currentIndex\<close>.\<close>

definition counter_inv :: "state \<Rightarrow> bool" where
  "counter_inv s \<longleftrightarrow>
     0 \<le> roundNum s \<and> roundNum s \<le> roundsTotal s
     \<and> (roundNum s \<noteq> 0 \<longrightarrow> currentIndex s = roundNum s - 1)"

text \<open>During a round \<open>images[currentIndex]\<close> is defined.\<close>

definition round_inv :: "state \<Rightarrow> bool" where
  "round_inv s \<longleftrightarrow>
     counter_inv s \<and> (roundNum s \<noteq> 0 \<longrightarrow> roundNum s \<le> int (length (images s)))"

text \<open>
  At most one call of \<^verbatim>\<open>startGame\<close> is suspended, and none during a game; Start is
  enabled and Next is disabled whenever no round is on.
\<close>

definition single_flight :: "nat \<times> state \<Rightarrow> bool" where
  "single_flight c \<longleftrightarrow>
     fst c \<le> 1
     \<and> (roundNum (snd c) \<noteq> 0 \<longrightarrow> fst c = 0 \<and> startBtn_disabled (snd c))
     \<and> (\<not> nextBtn_disabled (snd c) \<longrightarrow> roundNum (snd c) \<noteq> 0)"

text \<open>Runs in which Start is never clicked while a call of \<^verbatim>\<open>startGame\<close> is suspended.\<close>

fun single_runs :: "event list \<Rightarrow> nat \<times> state \<Rightarrow> bool" where
  "single_runs [] c = True"
| "single_runs (ev # evs) c = ((ev = StartClick \<longrightarrow> fst c = 0) \<and> single_runs evs (dispatch ev c))"

section \<open>Rounding\<close>

text \<open>
  Facts on \<open>fl\<close>: it is odd and monotone, exact on numbers with at most 53 significant
  bits, at most half an \<open>ulp\<close> away from its argument, and zero below half the least
  subnormal number.
\<close>

lemma round_even_of_int [simp]: "round_even (of_int n) = n"
  by (simp add: round_even_def)

lemma round_even_zero [simp]: "round_even 0 = 0"
  using round_even_of_int [of 0] by simp

lemma round_even_bounds: "y - 1 / 2 \<le> of_int (round_even y)" "of_int (round_even y) \<le> y + 1 / 2"
  unfolding round_even_def Let_def by (auto; linarith)+


lemma round_even_ge: "of_int n - 1 / 2 < y \<Longrightarrow> n \<le> round_even y"
  unfolding round_even_def Let_def by (auto; linarith)

lemma round_even_floor: "\<lfloor>y\<rfloor> \<le> round_even y" "round_even y \<le> \<lfloor>y\<rfloor> + 1"
  unfolding round_even_def Let_def by auto

lemma round_even_mono:
  assumes "x \<le> y"
  shows "round_even x \<le> round_even y"
proof (cases "\<lfloor>x\<rfloor> = \<lfloor>y\<rfloor>")
  case True
  then show ?thesis using assms unfolding round_even_def Let_def by auto
next
  case False
  with assms have "\<lfloor>x\<rfloor> + 1 \<le> \<lfloor>y\<rfloor>" using floor_mono [OF assms] by linarith
  then show ?thesis using round_even_floor(2) [of x] round_even_floor(1) [of y] by linarith
qed

lemma round_even_minus: "round_even (- y) = - round_even y"
proof (cases "y = of_int \<lfloor>y\<rfloor>")
  case True
  then obtain n :: int where n: "y = of_int n" ..
  show ?thesis unfolding n by (simp only: of_int_minus [symmetric] round_even_of_int)
next
  case False
  then have fl: "\<lfloor>- y\<rfloor> = - \<lfloor>y\<rfloor> - 1" by linarith
  have "of_int \<lfloor>y\<rfloor> \<le> y" "y < of_int \<lfloor>y\<rfloor> + 1" by linarith+
  then show ?thesis unfolding round_even_def Let_def fl by auto
qed


lemma binade:
  assumes "x \<noteq> 0"
  shows "2 powi \<lfloor>log 2 \<bar>x\<bar>\<rfloor> \<le> \<bar>x\<bar>" "\<bar>x\<bar> < 2 powi (\<lfloor>log 2 \<bar>x\<bar>\<rfloor> + 1)"
proof -
  have "(2::real) powr of_int \<lfloor>log 2 \<bar>x\<bar>\<rfloor> \<le> \<bar>x\<bar> \<and> \<bar>x\<bar> < 2 powr (of_int \<lfloor>log 2 \<bar>x\<bar>\<rfloor> + 1)"
    using assms floor_log_eq_powr_iff [of "\<bar>x\<bar>" 2 "\<lfloor>log 2 \<bar>x\<bar>\<rfloor>"] by simp
  moreover have "(2::real) powr (of_int \<lfloor>log 2 \<bar>x\<bar>\<rfloor> + 1) = 2 powr of_int (\<lfloor>log 2 \<bar>x\<bar>\<rfloor> + 1)" by simp
  ultimately show "2 powi \<lfloor>log 2 \<bar>x\<bar>\<rfloor> \<le> \<bar>x\<bar>" "\<bar>x\<bar> < 2 powi (\<lfloor>log 2 \<bar>x\<bar>\<rfloor> + 1)"
    by (simp_all only: powr_real_of_int' [of 2, simplified])
qed

lemma floor_log2_eq:
  assumes "2 powi e \<le> \<bar>x\<bar>" "\<bar>x\<bar> < 2 powi (e + 1)"
  shows "\<lfloor>log 2 \<bar>x\<bar>\<rfloor> = e"
proof -
  have "0 < (2::real) powi e" by simp
  with assms(1) have pos: "0 < \<bar>x\<bar>" by linarith
  have "(2::real) powr of_int e \<le> \<bar>x\<bar>" "\<bar>x\<bar> < 2 powr of_int (e + 1)"
    using assms by (simp_all only: powr_real_of_int' [of 2, simplified])
  then have "(2::real) powr of_int e \<le> \<bar>x\<bar> \<and> \<bar>x\<bar> < 2 powr (of_int e + 1)" by simp
  then show ?thesis using pos floor_log_eq_powr_iff [of "\<bar>x\<bar>" 2 e] by simp
qed

lemma ulp_pos [simp]: "0 < ulp x"
  by (simp add: ulp_def)

lemma ulp_nonneg [simp]: "0 \<le> ulp x"
  by (simp add: ulp_def)

lemma ulp_neq0 [simp]: "ulp x \<noteq> 0"
  by (simp add: ulp_def)

lemma powi2_less_imp: "(2::real) powi a < 2 powi b \<Longrightarrow> a < b"
proof (rule ccontr)
  assume "(2::real) powi a < 2 powi b" "\<not> a < b"
  moreover from this have "(2::real) powi b \<le> 2 powi a" by (intro power_int_increasing) simp_all
  ultimately show False by linarith
qed

lemma expo_minus [simp]: "expo (- x) = expo x"
  by (simp add: expo_def)

lemma ulp_minus [simp]: "ulp (- x) = ulp x"
  by (simp add: ulp_def)

lemma fl_zero [simp]: "fl 0 = 0"
  by (simp add: fl_def)

lemma fl_minus: "fl (- x) = - fl x"
  by (simp add: fl_def round_even_minus)

lemma fl_nonneg: "0 \<le> x \<Longrightarrow> 0 \<le> fl x"
proof -
  assume "0 \<le> x"
  then have "0 \<le> x / ulp x" by (intro divide_nonneg_pos ulp_pos)
  then have "of_int 0 - 1 / 2 < x / ulp x" by linarith
  then have "0 \<le> round_even (x / ulp x)" by (rule round_even_ge)
  then show ?thesis by (simp add: fl_def)
qed

lemma expo_upper: "x \<noteq> 0 \<Longrightarrow> \<bar>x\<bar> < 2 powi (expo x + 1)"
proof -
  assume x: "x \<noteq> 0"
  have "(2::real) powi (\<lfloor>log 2 \<bar>x\<bar>\<rfloor> + 1) \<le> 2 powi (expo x + 1)"
    by (intro power_int_increasing) (simp_all add: expo_def)
  with binade(2) [OF x] show ?thesis by linarith
qed

lemma expo_lower: "x \<noteq> 0 \<Longrightarrow> - 1022 < expo x \<Longrightarrow> 2 powi expo x \<le> \<bar>x\<bar>"
  using binade(1) [of x] by (simp add: expo_def max_def split: if_splits)

lemma expo_mono: "x \<noteq> 0 \<Longrightarrow> \<bar>x\<bar> \<le> \<bar>y\<bar> \<Longrightarrow> expo x \<le> expo y"
proof -
  assume "x \<noteq> 0" "\<bar>x\<bar> \<le> \<bar>y\<bar>"
  then have "log 2 \<bar>x\<bar> \<le> log 2 \<bar>y\<bar>" by simp
  then have "\<lfloor>log 2 \<bar>x\<bar>\<rfloor> \<le> \<lfloor>log 2 \<bar>y\<bar>\<rfloor>" by (rule floor_mono)
  then show ?thesis by (simp add: expo_def)
qed


lemma ulp_53: "of_int (2 ^ 53) * ulp x = 2 powi (expo x + 1)"
proof -
  have "(2::real) powi (53 + (expo x - 52)) = 2 powi 53 * 2 powi (expo x - 52)"
    by (rule power_int_add) simp
  moreover have "53 + (expo x - 52) = expo x + 1" by simp
  ultimately show ?thesis by (simp add: ulp_def)
qed

lemma ulp_52: "of_int (2 ^ 52) * ulp x = 2 powi expo x"
proof -
  have "(2::real) powi (52 + (expo x - 52)) = 2 powi 52 * 2 powi (expo x - 52)"
    by (rule power_int_add) simp
  then show ?thesis by (simp add: ulp_def)
qed

lemma fl_upper:
  assumes "0 < x"
  shows "fl x \<le> 2 powi (expo x + 1)"
proof -
  have "x < 2 powi (expo x + 1)" using expo_upper [of x] assms by simp
  then have "x \<le> of_int (2 ^ 53) * ulp x" by (simp only: ulp_53)
  then have "x / ulp x \<le> of_int (2 ^ 53)" by (simp only: pos_divide_le_eq ulp_pos)
  then have "round_even (x / ulp x) \<le> round_even (of_int (2 ^ 53))" by (rule round_even_mono)
  then have "round_even (x / ulp x) \<le> 2 ^ 53" by (simp only: round_even_of_int)
  then have "of_int (round_even (x / ulp x)) * ulp x \<le> of_int (2 ^ 53) * ulp x"
    by (intro mult_right_mono) (simp_all only: of_int_le_iff ulp_nonneg)
  then have "of_int (round_even (x / ulp x)) * ulp x \<le> 2 powi (expo x + 1)" by (simp only: ulp_53)
  then show ?thesis using assms by (simp add: fl_def)
qed

lemma fl_lower:
  assumes "0 < x" "2 powi expo x \<le> x"
  shows "2 powi expo x \<le> fl x"
proof -
  from assms(2) have "of_int (2 ^ 52) * ulp x \<le> x" by (simp only: ulp_52)
  then have "of_int (2 ^ 52) \<le> x / ulp x" by (simp only: pos_le_divide_eq ulp_pos)
  then have "round_even (of_int (2 ^ 52)) \<le> round_even (x / ulp x)" by (rule round_even_mono)
  then have "2 ^ 52 \<le> round_even (x / ulp x)" by (simp only: round_even_of_int)
  then have "of_int (2 ^ 52) * ulp x \<le> of_int (round_even (x / ulp x)) * ulp x"
    by (intro mult_right_mono) (simp_all only: of_int_le_iff ulp_nonneg)
  then have "2 powi expo x \<le> of_int (round_even (x / ulp x)) * ulp x" by (simp only: ulp_52)
  then show ?thesis using assms by (simp add: fl_def)
qed

lemma fl_mono_pos:
  assumes "0 < x" "x \<le> y"
  shows "fl x \<le> fl y"
proof -
  have y: "0 < y" using assms by simp
  have e: "expo x \<le> expo y" using assms by (intro expo_mono) simp_all
  show ?thesis
  proof (cases "expo x = expo y")
    case True
    then have u: "ulp x = ulp y" by (simp add: ulp_def)
    have "x / ulp y \<le> y / ulp y" using assms by (simp add: divide_right_mono)
    then have "round_even (x / ulp y) \<le> round_even (y / ulp y)" by (rule round_even_mono)
    then have "of_int (round_even (x / ulp y)) * ulp y \<le> of_int (round_even (y / ulp y)) * ulp y"
      by (intro mult_right_mono) simp_all
    then show ?thesis using assms y by (simp add: fl_def u)
  next
    case False
    with e have lt: "expo x + 1 \<le> expo y" by simp
    then have "- 1022 < expo y" by (simp add: expo_def)
    then have "2 powi expo y \<le> y" using expo_lower [of y] y by simp
    then have "2 powi expo y \<le> fl y" using y by (intro fl_lower)
    moreover have "fl x \<le> 2 powi (expo x + 1)" using assms(1) by (rule fl_upper)
    moreover have "(2::real) powi (expo x + 1) \<le> 2 powi expo y"
      using lt by (intro power_int_increasing) simp_all
    ultimately show ?thesis by linarith
  qed
qed

lemma fl_mono:
  assumes "x \<le> y"
  shows "fl x \<le> fl y"
proof -
  consider "0 < x" | "x \<le> 0" "0 \<le> y" | "y < 0" by linarith
  then show ?thesis
  proof cases
    case 1
    then show ?thesis using assms by (rule fl_mono_pos)
  next
    case 2
    then have "0 \<le> fl y" "0 \<le> fl (- x)" by (simp_all add: fl_nonneg)
    then show ?thesis by (simp add: fl_minus)
  next
    case 3
    then have "fl (- y) \<le> fl (- x)" using assms by (intro fl_mono_pos) simp_all
    then show ?thesis by (simp add: fl_minus)
  qed
qed


lemma fl_half_ulp: "\<bar>fl x - x\<bar> \<le> ulp x / 2"
proof (cases "x = 0")
  case True
  then show ?thesis by simp
next
  case False
  have "\<bar>of_int (round_even (x / ulp x)) - x / ulp x\<bar> \<le> 1 / 2"
    using round_even_bounds [of "x / ulp x"] by linarith
  then have "\<bar>of_int (round_even (x / ulp x)) - x / ulp x\<bar> * ulp x \<le> 1 / 2 * ulp x"
    by (intro mult_right_mono) simp_all
  moreover have "\<bar>of_int (round_even (x / ulp x)) - x / ulp x\<bar> * ulp x
      = \<bar>of_int (round_even (x / ulp x)) * ulp x - x\<bar>"
  proof -
    have "\<bar>of_int (round_even (x / ulp x)) - x / ulp x\<bar> * ulp x
      = \<bar>(of_int (round_even (x / ulp x)) - x / ulp x) * ulp x\<bar>"
      by (simp add: abs_mult)
    also have "(of_int (round_even (x / ulp x)) - x / ulp x) * ulp x
      = of_int (round_even (x / ulp x)) * ulp x - x"
      using ulp_pos [of x] by (simp add: left_diff_distrib)
    finally show ?thesis .
  qed
  ultimately show ?thesis using False by (simp add: fl_def)
qed

lemma expo_le:
  assumes "x \<noteq> 0" "\<bar>x\<bar> < 2 powi k" "- 1021 \<le> k"
  shows "expo x \<le> k - 1"
proof -
  have "2 powi \<lfloor>log 2 \<bar>x\<bar>\<rfloor> < (2::real) powi k" using binade(1) [OF assms(1)] assms(2) by linarith
  then have "\<lfloor>log 2 \<bar>x\<bar>\<rfloor> < k" by (rule powi2_less_imp)
  then show ?thesis using assms(3) by (simp add: expo_def)
qed

lemma fl_error:
  assumes "\<bar>x\<bar> < 2 powi k" "- 1021 \<le> k"
  shows "\<bar>fl x - x\<bar> \<le> 2 powi (k - 54)"
proof (cases "x = 0")
  case True
  then show ?thesis by simp
next
  case False
  have "expo x - 53 \<le> k - 54" using expo_le [OF False assms] by simp
  then have "(2::real) powi (expo x - 53) \<le> 2 powi (k - 54)"
    by (intro power_int_increasing) simp_all
  moreover have "ulp x / 2 = 2 powi (expo x - 53)"
  proof -
    have "(2::real) powi (expo x - 53 + 1) = 2 powi (expo x - 53) * 2 powi 1"
      by (rule power_int_add) simp
    then show ?thesis by (simp add: ulp_def)
  qed
  ultimately show ?thesis using fl_half_ulp [of x] by linarith
qed

lemma fl_rel_error:
  assumes "x \<noteq> 0" "- 1022 < expo x"
  shows "\<bar>fl x - x\<bar> \<le> \<bar>x\<bar> / 2 ^ 53"
proof -
  have "of_int (2 ^ 52) * ulp x \<le> \<bar>x\<bar>" using expo_lower [OF assms] by (simp only: ulp_52)
  then have "ulp x / 2 \<le> \<bar>x\<bar> / 2 ^ 53" by simp
  then show ?thesis using fl_half_ulp [of x] by linarith
qed

lemma fl_binade:
  assumes "2 powi e \<le> \<bar>x\<bar>" "\<bar>x\<bar> < 2 powi (e + 1)" "- 1022 \<le> e"
  shows "fl x = of_int (round_even (x / 2 powi (e - 52))) * 2 powi (e - 52)"
proof -
  have "0 < (2::real) powi e" by simp
  with assms(1) have "0 < \<bar>x\<bar>" by linarith
  then have x: "x \<noteq> 0" by simp
  have "expo x = e" using floor_log2_eq [OF assms(1,2)] assms(3) by (simp add: expo_def)
  then show ?thesis using x by (simp add: fl_def ulp_def)
qed




lemma fl_exact:
  assumes "\<bar>N\<bar> < 2 ^ 53" "- 1074 \<le> m"
  shows "fl (of_int N * 2 powi m) = of_int N * 2 powi m"
proof (cases "N = 0")
  case True
  then show ?thesis by simp
next
  case False
  define x :: real where "x = of_int N * 2 powi m"
  have x: "x \<noteq> 0" using False by (simp add: x_def)
  have ax: "\<bar>x\<bar> = of_int \<bar>N\<bar> * 2 powi m" by (simp add: abs_mult x_def)
  define E where "E = expo x"
  have le: "E - 52 \<le> m"
  proof (cases "- 1022 < E")
    case True
    have "2 powi E \<le> \<bar>x\<bar>" unfolding E_def using x True [unfolded E_def] by (rule expo_lower)
    also have "\<bar>x\<bar> < of_int (2 ^ 53) * 2 powi m"
      unfolding ax using assms(1)
      by (intro mult_strict_right_mono) (simp_all only: of_int_less_iff zero_less_power_int zero_less_numeral)
    also have "of_int (2 ^ 53) * (2::real) powi m = 2 powi (53 + m)"
      using power_int_add [of "2::real" 53 m] by simp
    finally have "E < 53 + m" by (rule powi2_less_imp)
    then show ?thesis by simp
  next
    case False
    then have "E = - 1022" by (simp add: expo_def E_def)
    then show ?thesis using assms(2) by simp
  qed
  define k where "k = nat (m - (E - 52))"
  have k: "int k + (E - 52) = m" using le by (simp add: k_def)
  have "(2::real) powi (int k + (E - 52)) = 2 powi int k * 2 powi (E - 52)"
    by (rule power_int_add) simp
  then have p: "(2::real) powi m = 2 ^ k * ulp x" unfolding k by (simp add: ulp_def E_def)
  have "x = of_int N * 2 powi m" by (rule x_def)
  also have "\<dots> = of_int N * (2 ^ k * ulp x)" by (simp only: p)
  finally have xe: "x = of_int (N * 2 ^ k) * ulp x" by simp
  have "x / ulp x = of_int (N * 2 ^ k) * ulp x / ulp x"
    using xe by (rule arg_cong [where f = "\<lambda>t. t / ulp x"])
  then have "x / ulp x = of_int (N * 2 ^ k)" by simp
  then have "round_even (x / ulp x) = N * 2 ^ k" by (simp only: round_even_of_int)
  then have "fl x = of_int (N * 2 ^ k) * ulp x" using x by (simp only: fl_def if_False)
  then have "fl x = x" using xe by simp
  then show ?thesis unfolding x_def .
qed

lemma fl_of_int: "\<bar>N\<bar> < 2 ^ 53 \<Longrightarrow> fl (of_int N) = of_int N"
  using fl_exact [of N 0] by simp

lemma fl_of_nat: "n < 2 ^ 53 \<Longrightarrow> fl (of_nat n) = of_nat n"
  using fl_of_int [of "int n"] by simp

lemma fl_numeral [simp]: "numeral w < (2 ^ 53 :: int) \<Longrightarrow> fl (numeral w) = numeral w"
  using fl_of_int [of "numeral w"] by simp

lemma fl_one [simp]: "fl 1 = 1"
  using fl_of_int [of 1] by simp

lemma fl_powi: "- 1074 \<le> m \<Longrightarrow> fl (2 powi m) = 2 powi m"
  using fl_exact [of 1 m] by simp

lemma fl_half: "fl (1 / 2) = 1 / 2"
  using fl_powi [of "- 1"] by simp

lemma double_lt_one:
  assumes "double r" "r < 1"
  shows "r \<le> 1 - 1 / 2 ^ 53"
proof (cases "r < 1 / 2")
  case True
  then show ?thesis by simp
next
  case False
  then have "2 powi (- 1) \<le> \<bar>r\<bar>" "\<bar>r\<bar> < 2 powi (- 1 + 1)" using assms(2) by simp_all
  from fl_binade [OF this] have "fl r = of_int (round_even (r / 2 powi (- 53))) * 2 powi (- 53)" by simp
  moreover have "fl r = r" using assms(1) by (simp add: double_def)
  ultimately have r: "r = of_int (round_even (r * 2 ^ 53)) / 2 ^ 53"
    by (simp add: power_int_minus field_simps)
  define K where "K = round_even (r * 2 ^ 53)"
  have "of_int K / 2 ^ 53 < (1::real)" using r assms(2) by (simp add: K_def)
  then have "of_int K < (2 ^ 53 :: real)" by simp
  then have "K < 2 ^ 53" by (metis of_int_less_iff of_int_numeral of_int_power)
  then have "K \<le> 2 ^ 53 - 1" by simp
  then have "(of_int K :: real) \<le> of_int (2 ^ 53 - 1)" by (simp only: of_int_le_iff)
  then have "of_int K / 2 ^ 53 \<le> (2 ^ 53 - 1) / (2 ^ 53 :: real)" by (simp add: divide_right_mono)
  then show ?thesis using r by (simp add: K_def)
qed

lemma fl_mult_lt:
  assumes "double r" "0 \<le> r" "r < 1" "1 \<le> n"
  shows "fl (r * n) < n"
proof (cases "r * n < 1 / 2")
  case True
  then have "fl (r * n) \<le> fl (2 powi (- 1))" by (intro fl_mono) simp
  also have "\<dots> = 1 / 2" using fl_powi [of "- 1"] by simp
  finally show ?thesis using assms(4) by simp
next
  case False
  define t where "t = r * n"
  have t: "1 / 2 \<le> t" using False by (simp add: t_def)
  then have t0: "t \<noteq> 0" by auto
  have "2 powi (- 1) \<le> \<bar>t\<bar>" using t by simp
  then have "- 1 \<le> \<lfloor>log 2 \<bar>t\<bar>\<rfloor>"
    using binade(2) [OF t0] powi2_less_imp [of "- 1" "\<lfloor>log 2 \<bar>t\<bar>\<rfloor> + 1"] by linarith
  then have "- 1022 < expo t" by (simp add: expo_def)
  from fl_rel_error [OF t0 this] have a: "\<bar>fl t - t\<bar> \<le> \<bar>t\<bar> / 2 ^ 53" .
  have "\<bar>t\<bar> = t" using t by simp
  with a have 1: "fl t - t \<le> t / 2 ^ 53" by (simp only: abs_le_iff)
  define M where "M = n * (1 - 1 / 2 ^ 53)"
  have 2: "t \<le> M"
    unfolding t_def M_def using double_lt_one [OF assms(1,3)] assms(4)
    by (simp add: mult.commute mult_left_mono)
  then have 3: "t / 2 ^ 53 \<le> M / 2 ^ 53" by (simp add: divide_right_mono)
  have 4: "M + M / 2 ^ 53 < n"
    unfolding M_def using assms(4) by (simp add: field_simps)
  from 1 2 3 4 show ?thesis unfolding t_def [symmetric] by linarith
qed

text \<open>
  An instance: the double nearest to 0.6, times 5, is rounded to 3 (the exact product is
  below 3).
\<close>

lemma fl_product_example: "fl (5404319552844595 / 9007199254740992 * 5) = 3"
proof -
  have "fl (5404319552844595 / 9007199254740992 * 5)
     = of_int (round_even (5404319552844595 / 9007199254740992 * 5 / 2 powi (1 - 52))) * 2 powi (1 - 52)"
    by (rule fl_binade) simp_all
  then show ?thesis by (simp add: round_even_def)
qed
section \<open>Scorer properties\<close>

lemma computeScore_unfold:
  "computeScore d =
     (if d \<le> 1 then 5000 else round (max 0 (fl (5000 * fl (1 - min (fl (d / 20000)) 1)))))"
  by (simp add: computeScore_def Let_def)

lemma computeScore_nonneg: "0 \<le> computeScore d"
  unfolding computeScore_unfold by (auto simp: round_def)

lemma score_factor_range:
  assumes "0 \<le> x"
  shows "0 \<le> fl (1 - min (fl x) 1)" "fl (1 - min (fl x) 1) \<le> 1"
proof -
  have "0 \<le> fl x" using assms by (rule fl_nonneg)
  then have "fl (1 - min (fl x) 1) \<le> fl 1" by (intro fl_mono) simp
  then show "fl (1 - min (fl x) 1) \<le> 1" by simp
  show "0 \<le> fl (1 - min (fl x) 1)" by (intro fl_nonneg) simp
qed

lemma computeScore_le_max: "computeScore d \<le> 5000"
proof (cases "d \<le> 1")
  case True
  then show ?thesis by (simp add: computeScore_unfold)
next
  case False
  then have "fl (1 - min (fl (d / 20000)) 1) \<le> 1" by (intro score_factor_range) simp
  then have "fl (5000 * fl (1 - min (fl (d / 20000)) 1)) \<le> fl 5000" by (intro fl_mono) simp
  then have "max 0 (fl (5000 * fl (1 - min (fl (d / 20000)) 1))) \<le> (5000::real)" by simp
  then have "round (max 0 (fl (5000 * fl (1 - min (fl (d / 20000)) 1)))) \<le> round (5000::real)"
    by (rule round_mono)
  then show ?thesis using False by (simp add: computeScore_unfold)
qed

lemma computeScore_mono:
  assumes "d1 \<le> d2"
  shows "computeScore d2 \<le> computeScore d1"
proof (cases "d1 \<le> 1")
  case True
  then have "computeScore d1 = 5000" by (simp add: computeScore_unfold)
  then show ?thesis using computeScore_le_max [of d2] by simp
next
  case False
  with assms have d2: "\<not> d2 \<le> 1" by simp
  have "fl (d1 / 20000) \<le> fl (d2 / 20000)" using assms by (intro fl_mono) simp
  then have "fl (1 - min (fl (d2 / 20000)) 1) \<le> fl (1 - min (fl (d1 / 20000)) 1)"
    by (intro fl_mono) simp
  then have "fl (5000 * fl (1 - min (fl (d2 / 20000)) 1)) \<le> fl (5000 * fl (1 - min (fl (d1 / 20000)) 1))"
    by (intro fl_mono) simp
  then have "max 0 (fl (5000 * fl (1 - min (fl (d2 / 20000)) 1)))
      \<le> max 0 (fl (5000 * fl (1 - min (fl (d1 / 20000)) 1)))"
    by simp
  then show ?thesis using False d2 by (simp add: computeScore_unfold round_mono)
qed

lemma computeScore_far:
  assumes "20000 \<le> d"
  shows "computeScore d = 0"
proof -
  have "fl 1 \<le> fl (d / 20000)" using assms by (intro fl_mono) simp
  then have "min (fl (d / 20000)) 1 = 1" by simp
  then show ?thesis using assms by (simp add: computeScore_unfold)
qed

lemma fl_quarters: "fl (1 / 4) = 1 / 4" "fl (3 / 4) = 3 / 4"
  using fl_exact [of 1 "- 2"] fl_exact [of 3 "- 2"] by simp_all

lemma computeScore_5000: "computeScore 5000 = 3750"
  by (simp add: computeScore_unfold fl_quarters)

lemma computeScore_10000: "computeScore 10000 = 2500"
  by (simp add: computeScore_unfold fl_half)


text \<open>
  C5: the score does not increase with the distance: for \<open>d1 \<le> d2\<close> in
  \<open>[1, 20000]\<close>, \<open>score d1 \<ge> score d2\<close>; and the score is 0 from 20000 km on.
\<close>

theorem computeScore_nonincreasing:
  "(1 \<le> d1 \<and> d1 \<le> d2 \<and> d2 \<le> 20000 \<longrightarrow> computeScore d2 \<le> computeScore d1)
   \<and> (20000 \<le> d \<longrightarrow> computeScore d = 0)"
  by (simp add: computeScore_mono computeScore_far)

theorem computeScore_nonincreasing_witness:
  "(1::real) \<le> 5000 \<and> (5000::real) \<le> 10000 \<and> (10000::real) \<le> 20000
   \<and> computeScore 10000 \<le> computeScore 5000
   \<and> computeScore 5000 = 3750 \<and> computeScore 10000 = 2500
   \<and> (20000::real) \<le> 25000 \<and> computeScore 25000 = 0"
  using computeScore_nonincreasing [of 5000 10000 25000]
  by (simp add: computeScore_5000 computeScore_10000)

subsection \<open>The curve of the specification\<close>

text \<open>
  The quotient, the difference and the product of line 126 are rounded to doubles, and
  the last rounding can fall on the other side of a half. Two distances where the score
  of the code is one less than the exact value of the curve:
\<close>

lemma q3618: "fl (3618 / 20000) = 3258804690365291 / 2 ^ 54"
proof -
  have "fl (3618 / 20000) = of_int (round_even (3618 / 20000 / 2 powi (- 3 - 52))) * 2 powi (- 3 - 52)"
    by (rule fl_binade) simp_all
  then show ?thesis by (simp add: round_even_def)
qed

lemma s3618: "fl (1 - 3258804690365291 / 2 ^ 54) = 3688898454779173 / 2 ^ 52"
proof -
  have "fl (1 - 3258804690365291 / 2 ^ 54)
      = of_int (round_even ((1 - 3258804690365291 / 2 ^ 54) / 2 powi (- 1 - 52))) * 2 powi (- 1 - 52)"
    by (rule fl_binade) simp_all
  then show ?thesis by (simp add: round_even_def)
qed

lemma t3618: "fl (5000 * (3688898454779173 / 2 ^ 52)) = 9006099743113215 / 2 ^ 41"
proof -
  have "fl (5000 * (3688898454779173 / 2 ^ 52))
      = of_int (round_even (5000 * (3688898454779173 / 2 ^ 52) / 2 powi (11 - 52))) * 2 powi (11 - 52)"
    by (rule fl_binade) simp_all
  then show ?thesis by (simp add: round_even_def)
qed

lemma computeScore_3618: "computeScore 3618 = 4095"
proof -
  have c: "\<not> (3618::real) \<le> 1" by simp
  have e0: "computeScore 3618 = round (max 0 (fl (5000 * fl (1 - min (fl (3618 / 20000)) 1))))"
    by (simp only: computeScore_unfold c if_False)
  have e1: "min (3258804690365291 / 2 ^ 54) (1::real) = 3258804690365291 / 2 ^ 54" by simp
  have e2: "round (max 0 (9006099743113215 / 2 ^ 41 :: real)) = 4095" by (simp add: round_def)
  show ?thesis by (simp only: e0 q3618 e1 s3618 t3618 e2)
qed

lemma score_spec_3618: "score_spec 3618 = 4096"
  by (simp add: score_spec_def round_def)


lemma q19998: "fl (19998 / 20000) = 4503149267407759 / 2 ^ 52"
proof -
  have "fl (19998 / 20000) = of_int (round_even (19998 / 20000 / 2 powi (- 1 - 52))) * 2 powi (- 1 - 52)"
    by (rule fl_binade) simp_all
  then show ?thesis by (simp add: round_even_def)
qed

lemma s19998: "fl (1 - 4503149267407759 / 2 ^ 52) = 450359962737 / 2 ^ 52"
  using fl_exact [of 450359962737 "- 52"] by simp

lemma t19998: "fl (5000 * (450359962737 / 2 ^ 52)) = 281474976710625 / 2 ^ 49"
  using fl_exact [of 281474976710625 "- 49"] by simp

lemma computeScore_19998: "computeScore 19998 = 0"
proof -
  have c: "\<not> (19998::real) \<le> 1" by simp
  have e0: "computeScore 19998 = round (max 0 (fl (5000 * fl (1 - min (fl (19998 / 20000)) 1))))"
    by (simp only: computeScore_unfold c if_False)
  have e1: "min (4503149267407759 / 2 ^ 52) (1::real) = 4503149267407759 / 2 ^ 52" by simp
  have e2: "round (max 0 (281474976710625 / 2 ^ 49 :: real)) = 0" by (simp add: round_def)
  show ?thesis by (simp only: e0 q19998 e1 s19998 t19998 e2)
qed

lemma score_spec_19998: "score_spec 19998 = 1"
  by (simp add: score_spec_def round_def)

lemma round_close:
  fixes a b :: real
  assumes "\<bar>a - b\<bar> < 1"
  shows "\<bar>round a - round b\<bar> \<le> 1"
proof -
  have "a + 1 / 2 < b + 1 / 2 + 1" "b + 1 / 2 < a + 1 / 2 + 1" using assms by linarith+
  then have "\<lfloor>a + 1 / 2\<rfloor> \<le> \<lfloor>b + 1 / 2 + 1\<rfloor>" "\<lfloor>b + 1 / 2\<rfloor> \<le> \<lfloor>a + 1 / 2 + 1\<rfloor>"
    by (intro floor_mono; linarith)+
  then show ?thesis unfolding round_def by (simp add: abs_le_iff) linarith
qed

lemma computeScore_near_spec: "\<bar>computeScore d - score_spec d\<bar> \<le> 1"
proof (cases "d \<le> 1")
  case True
  then show ?thesis by (simp add: computeScore_unfold score_spec_def)
next
  case d: False
  define x where "x = d / 20000"
  have x0: "0 < x" using d by (simp add: x_def)
  show ?thesis
  proof (cases "1 \<le> x")
    case True
    then have "fl 1 \<le> fl x" by (rule fl_mono)
    then have "min (fl x) 1 = 1" "min x 1 = 1" using True by simp_all
    then show ?thesis using d by (simp add: computeScore_unfold score_spec_def x_def)
  next
    case False
    then have "fl x \<le> fl 1" by (intro fl_mono) simp
    then have q1: "fl x \<le> 1" by simp
    have q0: "0 \<le> fl x" using x0 by (intro fl_nonneg) simp
    define q where "q = fl x"
    define s where "s = fl (1 - q)"
    define t where "t = fl (5000 * s)"
    have eq: "\<bar>q - x\<bar> \<le> 2 powi (0 - 54)"
      unfolding q_def using x0 False by (intro fl_error) simp_all
    have es: "\<bar>s - (1 - q)\<bar> \<le> 2 powi (1 - 54)"
      unfolding s_def using q0 q1 by (intro fl_error) (simp_all add: q_def)
    have s01: "0 \<le> s" "s \<le> 1"
      unfolding s_def q_def using score_factor_range [of x] x0 q1 by simp_all
    have et: "\<bar>t - 5000 * s\<bar> \<le> 2 powi (13 - 54)"
      unfolding t_def using s01 by (intro fl_error) simp_all
    have "(2::real) powi (0 - 54) \<le> 1 / 100000" "(2::real) powi (1 - 54) \<le> 1 / 100000"
      "(2::real) powi (13 - 54) \<le> 1 / 10" by simp_all
    with eq es et have "\<bar>q - x\<bar> \<le> 1 / 100000" "\<bar>s - (1 - q)\<bar> \<le> 1 / 100000" "\<bar>t - 5000 * s\<bar> \<le> 1 / 10"
      by linarith+
    then have "\<bar>t - 5000 * (1 - x)\<bar> < 1" by argo
    then have "\<bar>max 0 t - max 0 (5000 * (1 - x))\<bar> < 1" by (simp add: max_def abs_if split: if_splits)
    then have "\<bar>round (max 0 t) - round (max 0 (5000 * (1 - x)))\<bar> \<le> 1" by (rule round_close)
    moreover have "computeScore d = round (max 0 t)"
      using d q1 by (simp add: computeScore_unfold t_def s_def q_def x_def)
    moreover have "score_spec d = round (max 0 (5000 * (1 - x)))"
      using d False by (simp add: score_spec_def x_def)
    ultimately show ?thesis by simp
  qed
qed

text \<open>
  The claim C1 as stated, with the curve \<open>round (max 0 (5000 * (1 - min (d / 20000) 1)))\<close>
  read as a real number, fails: at 3618 km the exact value \<open>4095.5\<close> rounds to 4096, while
  the product computed in doubles is just below \<open>4095.5\<close> and the code returns 4095; at
  19998 km the curve gives 1 and the code 0.
\<close>

theorem computeScore_not_score_spec:
  "computeScore 3618 = 4095 \<and> score_spec 3618 = 4096
   \<and> computeScore 19998 = 0 \<and> score_spec 19998 = 1"
  by (simp only: computeScore_3618 score_spec_3618 computeScore_19998 score_spec_19998)

text \<open>
  C1, amended: the scoring function returns 5000 when \<open>d \<le> 1\<close> and otherwise the curve
  evaluated in double arithmetic, every operation rounded to the nearest double; this is
  within 1 of the exact value of the curve for every distance, and the four listed values
  are as stated: \<open>score 0.5 = 5000\<close>, \<open>score 1 = 5000\<close>, \<open>score 20000 = 0\<close>,
  \<open>score 40000 = 0\<close>.
\<close>

theorem computeScore_near_score_spec:
  "computeScore d
     = (if d \<le> 1 then 5000 else round (max 0 (fl (5000 * fl (1 - min (fl (d / 20000)) 1)))))
   \<and> \<bar>computeScore d - score_spec d\<bar> \<le> 1
   \<and> computeScore 0.5 = 5000 \<and> computeScore 1 = 5000
   \<and> computeScore 20000 = 0 \<and> computeScore 40000 = 0"
proof -
  have "computeScore 0.5 = 5000" "computeScore 1 = 5000" by (simp_all add: computeScore_unfold)
  moreover have "computeScore 20000 = 0" "computeScore 40000 = 0"
    by (simp_all add: computeScore_far)
  ultimately show ?thesis
    using computeScore_unfold [of d] computeScore_near_spec [of d] by (intro conjI)
qed

subsection \<open>The distance\<close>


lemma Math_sin_zero [simp]: "Math_sin 0 = 0"
  by (simp add: Math_sin_def)

lemma Math_cos_zero [simp]: "Math_cos 0 = 1"
  by (simp add: Math_cos_def)

lemma finite_result_zero [simp]: "finite_result 0"
  by (simp add: finite_result_def)


lemma toRad_zero [simp]: "toRad 0 = Num 0"
  by (simp add: toRad_def)


lemma haversine_c_zero [simp]: "haversine_c 0 = Num 0"
  by (simp add: haversine_c_def Math_sqrt_def Math_atan2_def atan2_def)













section \<open>Round controller properties\<close>

subsection \<open>The handlers, step by step\<close>

lemma onMapClick_ignored:
  "roundNum s = 0 \<or> hasGuessed s \<Longrightarrow> onMapClick latlng s = Returned s"
  by (auto simp: onMapClick_def)

lemma index_nat [simp]: "j < length arr \<Longrightarrow> index arr (int j) = Some (arr ! j)"
  by (simp add: index_def)

lemma onMapClick_scored:
  assumes "roundNum s \<noteq> 0" "\<not> hasGuessed s" "index (images s) (currentIndex s) = Some actual"
  shows "\<exists>s'. onMapClick latlng s = Returned s' \<and> hasGuessed s'
     \<and> totalScore s' = totalScore s + round_points latlng actual
     \<and> roundNum s' = roundNum s \<and> currentIndex s' = currentIndex s \<and> images s' = images s
     \<and> roundsTotal s' = roundsTotal s \<and> \<not> nextBtn_disabled s' \<and> alerts s' = alerts s
     \<and> startBtn_disabled s' = startBtn_disabled s"
  using assms by (simp add: onMapClick_def Let_def round_points_def)

lemma shuffle_loop_length [simp]: "length (shuffle_loop i rnd arr) = length arr"
  by (induction i arbitrary: rnd arr) (simp_all add: Let_def)

lemma shuffle_length [simp]: "length (shuffle rnd arr) = length arr"
  by (simp add: shuffle_def)

lemma shuffle_Nil_iff [simp]: "shuffle rnd arr = [] \<longleftrightarrow> arr = []"
  using shuffle_length [of rnd arr] by (simp only: length_0_conv [symmetric])

lemma startGame_empty:
  "res = None \<or> res = Some [] \<Longrightarrow>
   startGame res rnd s = Returned (s\<lparr>images := [], alerts := alerts s @ [NoImagesAlert]\<rparr>)"
  by (auto simp: startGame_def loadDataset_def shuffle_def)

lemma proceedNextRound_next:
  assumes "0 \<le> roundNum s" "roundNum s < roundsTotal s" "roundNum s < int (length (images s))"
  shows "proceedNextRound s =
     Returned (resetRoundState (showImage (images s ! nat (roundNum s))
       (s\<lparr>roundNum := roundNum s + 1, roundEl := roundNum s + 1, currentIndex := roundNum s\<rparr>)))"
  using assms by (simp add: proceedNextRound_def Let_def index_def)

lemma proceedNextRound_end:
  assumes "roundsTotal s \<le> roundNum s \<or> int (length (images s)) \<le> roundNum s"
  shows "proceedNextRound s = Returned (endGame (s\<lparr>roundNum := roundNum s + 1\<rparr>))"
  using assms by (auto simp: proceedNextRound_def Let_def)

lemma startGame_nonempty:
  assumes "locs \<noteq> []" "1 \<le> roundsTotal s"
  shows "\<exists>s'. startGame (Some locs) rnd s = Returned s' \<and> round_active 0 s' \<and> images s' = shuffle rnd locs
    \<and> totalScore s' = 0 \<and> roundsTotal s' = roundsTotal s \<and> alerts s' = alerts s"
  using assms
  by (simp add: startGame_def loadDataset_def proceedNextRound_next Let_def round_active_def 
      resetRoundState_def showImage_def)

lemma startGame_no_rounds:
  assumes "locs \<noteq> []" "roundsTotal s \<le> 0"
  shows "\<exists>s'. startGame (Some locs) rnd s = Returned s' \<and> game_over s' \<and> totalScore s' = 0"
  using assms
  by (simp add: startGame_def loadDataset_def proceedNextRound_end Let_def game_over_def endGame_def)

lemma nextClick_advance:
  assumes "hasGuessed s" "\<not> nextBtn_disabled s" "roundNum s = int j + 1" "int j + 1 < roundsTotal s" "j + 1 < length (images s)"
  "startBtn_disabled s"
  shows "round_active (j + 1) (nextClick s) \<and> images (nextClick s) = images s \<and> roundsTotal (nextClick s) = roundsTotal s
     \<and> totalScore (nextClick s) = totalScore s \<and> alerts (nextClick s) = alerts s"
  using assms 
  by (simp add: nextClick_def nextBtn_click_def proceedNextRound_next round_active_def resetRoundState_def showImage_def)

lemma nextClick_finish:
  assumes "hasGuessed s" "\<not> nextBtn_disabled s" "roundNum s = int j + 1" "int j + 1 = roundsTotal s \<or> j + 1 = length (images s)"
  "int j + 1 \<le> roundsTotal s"
  shows "game_over (nextClick s) \<and> totalScore (nextClick s) = totalScore s \<and> alerts (nextClick s) = alerts s @ [GameOverAlert (totalScore s)]"
proof (cases "roundsTotal s \<le> roundNum s")
  case True
  then show ?thesis using assms by (simp add: nextClick_def nextBtn_click_def game_over_def endGame_def)
next
  case False
  then have "int (length (images s)) \<le> roundNum s" using assms by auto
  then show ?thesis using assms False by (simp add: nextClick_def nextBtn_click_def game_over_def endGame_def proceedNextRound_end)
qed


lemma play_round_advance:
  assumes "round_active j s" "int j + 1 < roundsTotal s" "j + 1 < length (images s)"
  shows "round_active (j + 1) (play_round g s) \<and> images (play_round g s) = images s
     \<and> roundsTotal (play_round g s) = roundsTotal s \<and> alerts (play_round g s) = alerts s
     \<and> totalScore (play_round g s) = totalScore s + round_points g (images s ! j)"
proof -
  from assms(1) have "roundNum s \<noteq> 0" "\<not> hasGuessed s" "index (images s) (currentIndex s) = Some (images s ! j)"
    by (simp_all add: round_active_def)
  from onMapClick_scored [OF this, of g] obtain s' where s': "onMapClick g s = Returned s'" "hasGuessed s'"
     "totalScore s' = totalScore s + round_points g (images s ! j)"
     "roundNum s' = roundNum s" "currentIndex s' = currentIndex s" "images s' = images s"
     "roundsTotal s' = roundsTotal s" "\<not> nextBtn_disabled s'" "alerts s' = alerts s"
     "startBtn_disabled s' = startBtn_disabled s" by blast
  have m: "mapClick g s = s'" by (simp add: mapClick_def s'(1))
  have "round_active (j + 1) (nextClick s') \<and> images (nextClick s') = images s' \<and> roundsTotal (nextClick s') = roundsTotal s'
     \<and> totalScore (nextClick s') = totalScore s' \<and> alerts (nextClick s') = alerts s'"
    using assms s' by (intro nextClick_advance) (simp_all add: round_active_def)
  then show ?thesis by (simp add: play_round_def m s')
qed

lemma play_round_finish:
  assumes "round_active j s" "int j + 1 = roundsTotal s \<or> j + 1 = length (images s)"
  shows "game_over (play_round g s) \<and> totalScore (play_round g s) = totalScore s + round_points g (images s ! j)"
proof -
  from assms(1) have "roundNum s \<noteq> 0" "\<not> hasGuessed s" "index (images s) (currentIndex s) = Some (images s ! j)"
    by (simp_all add: round_active_def)
  from onMapClick_scored [OF this, of g] obtain s' where s': "onMapClick g s = Returned s'" "hasGuessed s'"
     "totalScore s' = totalScore s + round_points g (images s ! j)"
     "roundNum s' = roundNum s" "currentIndex s' = currentIndex s" "images s' = images s"
     "roundsTotal s' = roundsTotal s" "\<not> nextBtn_disabled s'" "alerts s' = alerts s"
     "startBtn_disabled s' = startBtn_disabled s" by blast
  have m: "mapClick g s = s'" by (simp add: mapClick_def s'(1))
  have "game_over (nextClick s') \<and> totalScore (nextClick s') = totalScore s' \<and> alerts (nextClick s') = alerts s' @ [GameOverAlert (totalScore s')]"
    using assms s' by (intro nextClick_finish [where j = j]) (auto simp add: round_active_def)
  then show ?thesis by (simp add: play_round_def m s')
qed

lemma game_over_mapClick: "game_over s \<Longrightarrow> mapClick g s = s"
  by (simp add: game_over_def mapClick_def onMapClick_def)

lemma game_over_nextClick: "game_over s \<Longrightarrow> nextClick s = s"
  by (simp add: game_over_def nextClick_def)

lemma play_rounds:
  assumes "round_active j s"
  shows "(j + length gs < nat (min (roundsTotal s) (int (length (images s)))) \<longrightarrow>
            round_active (j + length gs) (play gs s))
       \<and> (gs \<noteq> [] \<and> j + length gs = nat (min (roundsTotal s) (int (length (images s)))) \<longrightarrow>
            game_over (play gs s))
       \<and> (j + length gs \<le> nat (min (roundsTotal s) (int (length (images s)))) \<longrightarrow>
            totalScore (play gs s) = totalScore s + sum_list (map2 round_points gs (drop j (images s))))"
  using assms
proof (induction gs arbitrary: j s)
  case Nil
  then show ?case by simp
next
  case (Cons g gs)
  let ?k = "nat (min (roundsTotal s) (int (length (images s))))"
  from Cons.prems have "int j < roundsTotal s" "j < length (images s)"
    by (simp_all add: round_active_def)
  then have jk: "j < ?k" by linarith
  then have dj: "drop j (images s) = images s ! j # drop (Suc j) (images s)"
    by (simp add: Cons_nth_drop_Suc)
  show ?case
  proof (cases "j + 1 < ?k")
    case True
    then have "int j + 1 < roundsTotal s" "j + 1 < length (images s)" by simp_all
    from play_round_advance [OF Cons.prems this, of g]
    have a: "round_active (j + 1) (play_round g s)" "images (play_round g s) = images s"
      "roundsTotal (play_round g s) = roundsTotal s" 
      "totalScore (play_round g s) = totalScore s + round_points g (images s ! j)" by simp_all
    from Cons.IH [OF a(1)] True show ?thesis by (cases "gs = []") (simp_all add: a dj add.assoc)
  next
    case False
    with jk have e: "j + 1 = ?k" by simp
    then have "int j + 1 = roundsTotal s \<or> j + 1 = length (images s)" by (auto simp: min_def split: if_splits)
    from play_round_finish [OF Cons.prems this, of g]
    have f: "game_over (play_round g s)" "totalScore (play_round g s) = totalScore s + round_points g (images s ! j)"
      by simp_all
    show ?thesis
    proof (cases gs)
      case Nil
      then show ?thesis using e f by (simp add: dj)
    next
      case (Cons a list)
      then show ?thesis using e by simp
    qed
  qed
qed

subsection \<open>How many rounds a game has\<close>

lemma init_fields:
  "images init_state = []" "currentIndex init_state = - 1" "roundsTotal init_state = 5"
  "roundNum init_state = 0" "totalScore init_state = 0" "hasGuessed init_state = False"
  "guessMarker init_state = None" "actualMarker init_state = None" "line init_state = None"
  "startBtn_disabled init_state = False" "nextBtn_disabled init_state = True"
  "roundEl init_state = 0" "scoreEl init_state = 0" "distanceEl init_state = None"
  "roundScoreEl init_state = None" "sceneImage_src init_state = []"
  "sceneImage_alt init_state = []" "hintEl init_state = []" "locationCreditEl init_state = []"
  "alerts init_state = []"
  by (simp_all add: init_state_def)

lemma shuffle_two: "shuffle (\<lambda>_. 0) [paris, quito] = [quito, paris]"
  by (simp add: shuffle_def)

text \<open>
  C2: after \<^verbatim>\<open>startGame\<close> has succeeded with \<open>N\<close> locations (from any earlier state),
  exactly \<open>k = min roundsTotal N\<close> rounds can be played: after fewer than \<open>k\<close> rounds
  (a guess and Next each) the next round waits for its guess and the game is not over;
  after \<open>k\<close> rounds the game is over and further clicks on the map or on Next change
  nothing; and every one of the guesses played has been scored once, against the
  location of its round.
\<close>

theorem rounds_playable:
  "locs \<noteq> [] \<Longrightarrow>
   (let s1 = state_of (startGame (Some locs) rnd s0);
        k = nat (min (roundsTotal s0) (int (length locs)))
    in startGame (Some locs) rnd s0 = Returned s1
       \<and> (length gs < k \<longrightarrow> round_active (length gs) (play gs s1) \<and> \<not> game_over (play gs s1))
       \<and> (length gs = k \<longrightarrow>
            game_over (play gs s1) \<and> mapClick g (play gs s1) = play gs s1
            \<and> nextClick (play gs s1) = play gs s1)
       \<and> (length gs \<le> k \<longrightarrow>
            totalScore (play gs s1) = sum_list (map2 round_points gs (images s1))))"
proof (cases "1 \<le> roundsTotal s0")
  case True
  assume locs: "locs \<noteq> []"
  from startGame_nonempty [OF locs True, of rnd] obtain s' where
    s': "startGame (Some locs) rnd s0 = Returned s'" "round_active 0 s'" "images s' = shuffle rnd locs"
     "totalScore s' = 0" "roundsTotal s' = roundsTotal s0" by blast
  have k: "nat (min (roundsTotal s') (int (length (images s')))) = nat (min (roundsTotal s0) (int (length locs)))"
    by (simp add: s')
  have kpos: "0 < nat (min (roundsTotal s0) (int (length locs)))" using True locs by simp
  let ?k = "nat (min (roundsTotal s0) (int (length locs)))" and ?s = "play gs s'"
  note pr = play_rounds [OF s'(2), of gs, unfolded k, simplified]
  have A: "length gs < ?k \<longrightarrow> round_active (length gs) ?s \<and> \<not> game_over ?s"
    using pr by (simp add: round_active_def game_over_def)
  have "gs \<noteq> []" if "length gs = ?k" using that kpos by (cases gs) simp_all
  then have G: "length gs = ?k \<longrightarrow> game_over ?s" using pr by blast
  then have B: "length gs = ?k \<longrightarrow> game_over ?s \<and> mapClick g ?s = ?s \<and> nextClick ?s = ?s"
    using game_over_mapClick [of ?s g] game_over_nextClick [of ?s] by blast
  have C: "length gs \<le> ?k \<longrightarrow> totalScore ?s = sum_list (map2 round_points gs (images s'))"
    using pr by (simp add: s')
  from A B C show ?thesis by (simp add: Let_def s'(1))
next
  case False
  assume locs: "locs \<noteq> []"
  from False have r: "roundsTotal s0 \<le> 0" by simp
  from startGame_no_rounds [OF locs r, of rnd] obtain s' where
    s': "startGame (Some locs) rnd s0 = Returned s'" "game_over s'" "totalScore s' = 0" by blast
  have k: "nat (min (roundsTotal s0) (int (length locs))) = 0" using r by simp
  show ?thesis using s' game_over_mapClick [OF s'(2), of g] game_over_nextClick [OF s'(2)] by (simp add: Let_def k)
qed

theorem rounds_playable_witness:
  "[paris, quito] \<noteq> []
   \<and> nat (min (roundsTotal init_state) (int (length [paris, quito]))) = 2
   \<and> startGame (Some [paris, quito]) (\<lambda>_. 0) init_state
       = Returned (state_of (startGame (Some [paris, quito]) (\<lambda>_. 0) init_state))
   \<and> images (state_of (startGame (Some [paris, quito]) (\<lambda>_. 0) init_state)) = [quito, paris]
   \<and> round_active 1 (play [(0, 0)] (state_of (startGame (Some [paris, quito]) (\<lambda>_. 0) init_state)))
   \<and> game_over (play [(0, 0), (10, 10)] (state_of (startGame (Some [paris, quito]) (\<lambda>_. 0) init_state)))
   \<and> totalScore (play [(0, 0), (10, 10)] (state_of (startGame (Some [paris, quito]) (\<lambda>_. 0) init_state)))
       = round_points (0, 0) quito + round_points (10, 10) paris"
proof -
  have im: "images (state_of (startGame (Some [paris, quito]) (\<lambda>_. 0) init_state)) = [quito, paris]"
    by (simp add: startGame_def loadDataset_def shuffle_two proceedNextRound_next
        resetRoundState_def showImage_def init_fields)
  show ?thesis
    using rounds_playable [where locs = "[paris, quito]" and rnd = "\<lambda>_. 0" and ?s0.0 = init_state
        and gs = "[(0, 0)]"]
      rounds_playable [where locs = "[paris, quito]" and rnd = "\<lambda>_. 0" and ?s0.0 = init_state
        and gs = "[(0, 0), (10, 10)]"]
    by (simp add: Let_def init_fields im)
qed

subsection \<open>Concrete runs\<close>

text \<open>The definitions a concrete run unfolds.\<close>

lemmas handler_defs = startGame_def loadDataset_def shuffle_def proceedNextRound_def index_def
  Let_def showImage_def resetRoundState_def mapClick_def onMapClick_def nextClick_def
  nextBtn_click_def endGame_def

lemmas sample_defs = init_state_def paris_def quito_def

subsection \<open>Guesses that are ignored\<close>

lemma onMapClick_threw:
  assumes "roundNum s \<noteq> 0" "\<not> hasGuessed s" "index (images s) (currentIndex s) = None"
  shows "onMapClick latlng s = Threw TypeError (s\<lparr>guessMarker := Some latlng\<rparr>)"
  using assms by (simp add: onMapClick_def)

text \<open>
  C3: when no game is on (\<open>roundNum = 0\<close>: not started, or over) or the round has its
  guess already, \<^verbatim>\<open>onMapClick\<close> returns at once and the whole state is as before. So
  a click after a click that returned changes nothing, a second click never changes
  \<open>totalScore\<close>, and clicks before the first game and after \<^verbatim>\<open>endGame\<close> are ignored.
\<close>

theorem onMapClick_noop:
  "(roundNum s = 0 \<or> hasGuessed s \<longrightarrow> onMapClick latlng s = Returned s)
   \<and> (onMapClick latlng s = Returned s' \<longrightarrow> onMapClick latlng' s' = Returned s')
   \<and> totalScore (state_of (onMapClick latlng' (state_of (onMapClick latlng s))))
       = totalScore (state_of (onMapClick latlng s))
   \<and> onMapClick latlng init_state = Returned init_state
   \<and> onMapClick latlng (endGame s) = Returned (endGame s)"
proof -
  have a: "roundNum s = 0 \<or> hasGuessed s \<longrightarrow> onMapClick latlng s = Returned s"
    by (simp add: onMapClick_ignored)
  have d: "onMapClick latlng init_state = Returned init_state"
    by (simp add: onMapClick_ignored init_state_def)
  have e: "onMapClick latlng (endGame s) = Returned (endGame s)"
    by (simp add: onMapClick_ignored endGame_def)
  have bc: "(onMapClick latlng s = Returned s' \<longrightarrow> onMapClick latlng' s' = Returned s')
     \<and> totalScore (state_of (onMapClick latlng' (state_of (onMapClick latlng s))))
       = totalScore (state_of (onMapClick latlng s))"
  proof (cases "roundNum s = 0 \<or> hasGuessed s")
    case True
    then have "onMapClick latlng s = Returned s" "onMapClick latlng' s = Returned s"
      by (simp_all add: onMapClick_ignored)
    then show ?thesis by auto
  next
    case False
    then have g: "roundNum s \<noteq> 0" "\<not> hasGuessed s" by simp_all
    show ?thesis
    proof (cases "index (images s) (currentIndex s)")
      case None
      let ?t = "s\<lparr>guessMarker := Some latlng\<rparr>"
      have 1: "onMapClick latlng s = Threw TypeError ?t"
        using g None by (rule onMapClick_threw)
      have "onMapClick latlng' ?t = Threw TypeError (?t\<lparr>guessMarker := Some latlng'\<rparr>)"
        using g None by (intro onMapClick_threw) simp_all
      then show ?thesis using 1 by simp
    next
      case (Some actual)
      from onMapClick_scored [OF g Some, of latlng] obtain t where
        t: "onMapClick latlng s = Returned t" "hasGuessed t" by blast
      then have "onMapClick latlng' t = Returned t" by (simp add: onMapClick_ignored)
      then show ?thesis using t by auto
    qed
  qed
  have b: "onMapClick latlng s = Returned s' \<longrightarrow> onMapClick latlng' s' = Returned s'"
    using bc by (rule conjunct1)
  have c: "totalScore (state_of (onMapClick latlng' (state_of (onMapClick latlng s))))
       = totalScore (state_of (onMapClick latlng s))"
    using bc by (rule conjunct2)
  show ?thesis by (intro conjI a b c d e)
qed



theorem onMapClick_noop_witness:
  "hasGuessed (mapClick (0, 0) (state_of (startGame (Some [paris]) (\<lambda>_. 0) init_state)))
   \<and> onMapClick (0, 0) (state_of (startGame (Some [paris]) (\<lambda>_. 0) init_state))
       = Returned (mapClick (0, 0) (state_of (startGame (Some [paris]) (\<lambda>_. 0) init_state)))
   \<and> onMapClick (5, 5) (mapClick (0, 0) (state_of (startGame (Some [paris]) (\<lambda>_. 0) init_state)))
       = Returned (mapClick (0, 0) (state_of (startGame (Some [paris]) (\<lambda>_. 0) init_state)))
   \<and> onMapClick (7, 7) (mapClick (0, 0) (state_of (startGame (Some [paris]) (\<lambda>_. 0) init_state)))
       = Returned (mapClick (0, 0) (state_of (startGame (Some [paris]) (\<lambda>_. 0) init_state)))
   \<and> totalScore (mapClick (5, 5) (mapClick (0, 0) (state_of (startGame (Some [paris]) (\<lambda>_. 0) init_state))))
       = round_points (0, 0) paris"
proof -
  let ?s1 = "state_of (startGame (Some [paris]) (\<lambda>_. 0) init_state)"
  let ?s2 = "mapClick (0, 0) ?s1"
  have g: "hasGuessed ?s2"
    by (simp add: handler_defs sample_defs)
  have t: "totalScore ?s2 = round_points (0, 0) paris"
    by (simp add: handler_defs sample_defs round_points_def)
  have "roundNum ?s1 \<noteq> 0" "\<not> hasGuessed ?s1" "index (images ?s1) (currentIndex ?s1) = Some paris"
    by (simp_all add: handler_defs sample_defs)
  from onMapClick_scored [OF this, of "(0, 0)"] have r: "onMapClick (0, 0) ?s1 = Returned ?s2"
    unfolding mapClick_def [of "(0, 0)"] by auto
  have n5: "onMapClick (5, 5) ?s2 = Returned ?s2"
    by (rule onMapClick_noop [where s = ?s1 and latlng = "(0, 0)" and s' = ?s2 and latlng' = "(5, 5)",
          THEN conjunct2, THEN conjunct1, THEN mp, OF r])
  have n7: "onMapClick (7, 7) ?s2 = Returned ?s2"
    by (rule onMapClick_noop [where s = ?s2 and latlng = "(7, 7)",
          THEN conjunct1, THEN mp, OF disjI2, OF g])
  have "totalScore (mapClick (5, 5) ?s2) = round_points (0, 0) paris"
    unfolding mapClick_def [of "(5, 5)"] n5 state_of.simps by (rule t)
  with g r n5 n7 show ?thesis by (intro conjI)
qed

subsection \<open>Starting a game\<close>

text \<open>
  The claim C6 as stated (the session state is left unchanged) fails for \<^verbatim>\<open>images\<close>:
  after a finished game the list still holds the dataset, and a start whose load fails or
  finds nothing empties it.
\<close>

theorem failed_start_clears_images:
  "game_over finished_game \<and> images finished_game = [paris]
   \<and> images (state_of (startGame None (\<lambda>_. 0) finished_game)) = []
   \<and> images (state_of (startGame (Some []) (\<lambda>_. 0) finished_game)) = []
   \<and> images (state_of (startGame None (\<lambda>_. 0) finished_game)) \<noteq> images finished_game"
  by (simp add: finished_game_def game_over_def handler_defs sample_defs)

text \<open>
  C6, amended: when the load fails or delivers an empty array, \<^verbatim>\<open>startGame\<close> shows the
  alert about missing images and returns; no round begins, and every variable and display
  is as before except \<^verbatim>\<open>images\<close>, which is now empty.
\<close>

theorem startGame_no_data:
  "startGame None rnd s = Returned (s\<lparr>images := [], alerts := alerts s @ [NoImagesAlert]\<rparr>)
   \<and> startGame (Some []) rnd s = Returned (s\<lparr>images := [], alerts := alerts s @ [NoImagesAlert]\<rparr>)
   \<and> roundNum (state_of (startGame None rnd s)) = roundNum s
   \<and> roundNum (state_of (startGame (Some []) rnd s)) = roundNum s
   \<and> snd (dispatch (LoadSettled None rnd) (Suc p, s))
       = s\<lparr>images := [], alerts := alerts s @ [NoImagesAlert]\<rparr>
   \<and> snd (dispatch (LoadSettled (Some []) rnd) (Suc p, s))
       = s\<lparr>images := [], alerts := alerts s @ [NoImagesAlert]\<rparr>"
  by (simp add: startGame_empty)

subsection \<open>The shuffle\<close>

lemma Math_random_tl: "Math_random rnd \<Longrightarrow> Math_random (\<lambda>k. rnd (Suc k))"
  by (simp add: Math_random_def)

lemma choice_le:
  assumes "Math_random rnd"
  shows "nat \<lfloor>fl (rnd 0 * (real (Suc i) + 1))\<rfloor> \<le> Suc i"
proof -
  from assms have r: "double (rnd 0)" "0 \<le> rnd 0" "rnd 0 < 1" by (simp_all add: Math_random_def)
  have "fl (rnd 0 * (real (Suc i) + 1)) < real (Suc i) + 1"
    using r by (intro fl_mult_lt) simp_all
  then have "\<lfloor>fl (rnd 0 * (real (Suc i) + 1))\<rfloor> < int (Suc i) + 1"
    by (simp add: floor_less_iff)
  then show ?thesis by linarith
qed

lemma shuffle_loop_mset:
  assumes "Math_random rnd" "i < length arr"
  shows "mset (shuffle_loop i rnd arr) = mset arr"
  using assms
proof (induction i arbitrary: rnd arr)
  case 0
  then show ?case by simp
next
  case (Suc i)
  let ?j = "nat \<lfloor>fl (rnd 0 * (real (Suc i) + 1))\<rfloor>"
  have j: "?j \<le> Suc i" using Suc.prems(1) by (rule choice_le)
  with Suc.prems(2) have jl: "?j < length arr" by simp
  have sw: "mset (arr[Suc i := arr ! ?j, ?j := arr ! Suc i]) = mset arr"
    using Suc.prems(2) jl by (simp add: mset_swap)
  have "mset (shuffle_loop i (\<lambda>k. rnd (Suc k)) (arr[Suc i := arr ! ?j, ?j := arr ! Suc i]))
        = mset (arr[Suc i := arr ! ?j, ?j := arr ! Suc i])"
    using Suc.prems by (intro Suc.IH Math_random_tl) simp_all
  moreover have "shuffle_loop (Suc i) rnd arr
      = shuffle_loop i (\<lambda>k. rnd (Suc k)) (arr[Suc i := arr ! ?j, ?j := arr ! Suc i])"
    by (simp only: shuffle_loop.simps Let_def)
  ultimately show ?case by (simp only: sw)
qed

lemma shuffle_mset:
  assumes "Math_random rnd"
  shows "mset (shuffle rnd arr) = mset arr"
proof (cases arr)
  case Nil
  then show ?thesis by (simp add: shuffle_def)
next
  case (Cons a list)
  then show ?thesis using assms by (simp add: shuffle_def shuffle_loop_mset)
qed

lemma double_unit:
  assumes "fl x = x" "0 \<le> x" "x < 1"
  shows "double x"
proof -
  have "\<bar>x\<bar> < 1" using assms by simp
  also have "(1::real) < 2 ^ 1024" by (rule one_less_power) simp_all
  finally show ?thesis using assms(1) unfolding double_def by simp
qed

lemma double_zero [simp]: "double 0"
  by (rule double_unit) simp_all

lemma Math_random_zero [simp]: "Math_random (\<lambda>_. 0)"
  by (simp add: Math_random_def)

lemma double_choice:
  fixes j i :: nat
  assumes "j \<le> Suc i" "i < 2 ^ 32"
  shows "\<exists>r. double r \<and> 0 \<le> r \<and> r < 1 \<and> nat \<lfloor>fl (r * (real (Suc i) + 1))\<rfloor> = j"
proof -
  define n where "n = real (Suc i) + 1"
  define k where "k = \<lceil>real j * 2 ^ 53 / n\<rceil>"
  define r :: real where "r = of_int k * 2 powi (- 53)"
  have n: "1 \<le> n" "real j \<le> n - 1" using assms(1) by (simp_all add: n_def)
  have "real i < 2 ^ 32" using assms(2) by (metis of_nat_less_iff of_nat_numeral of_nat_power)
  then have n2: "2 * n \<le> 2 ^ 53" by (simp add: n_def)
  have rp: "r = of_int k / 2 ^ 53" by (simp add: r_def power_int_minus field_simps)
  have "0 \<le> real j * 2 ^ 53 / n" using n(1) by simp
  then have k0: "0 \<le> k" unfolding k_def by linarith
  have "real j * 2 ^ 53 \<le> (2 ^ 53 - 2) * n"
  proof -
    have "real j * 2 ^ 53 \<le> (n - 1) * 2 ^ 53" using n(2) by (intro mult_right_mono) simp_all
    also have "\<dots> = 2 ^ 53 * n - 2 ^ 53" by (simp add: algebra_simps)
    also have "\<dots> \<le> 2 ^ 53 * n - 2 * n" using n2 by simp
    finally show ?thesis by (simp add: algebra_simps)
  qed
  then have "real j * 2 ^ 53 / n \<le> 2 ^ 53 - 2" using n(1) by (simp add: pos_divide_le_eq)
  then have k1: "k \<le> 2 ^ 53 - 2" unfolding k_def by (simp add: ceiling_le_iff)
  have lo: "real j * 2 ^ 53 / n \<le> of_int k" unfolding k_def by (rule le_of_int_ceiling)
  have hi: "of_int k < real j * 2 ^ 53 / n + 1" unfolding k_def by linarith
  have "fl r = r" unfolding r_def using k0 k1 by (intro fl_exact) simp_all
  moreover have r0: "0 \<le> r" using k0 by (simp add: rp)
  moreover have r1: "r < 1" using k1 by (simp add: rp)
  ultimately have d: "double r" by (intro double_unit)
  have a: "real j \<le> r * n"
  proof -
    have "real j * 2 ^ 53 \<le> of_int k * n" using lo n(1) by (simp add: pos_divide_le_eq)
    then show ?thesis by (simp add: rp field_simps)
  qed
  have b: "r * n \<le> real j + 1 / 2"
  proof -
    have "of_int k * n < real j * 2 ^ 53 + n" using hi n(1) by (simp add: field_simps)
    also have "\<dots> \<le> real j * 2 ^ 53 + 2 ^ 52" using n2 by simp
    finally have "of_int k * n / 2 ^ 53 \<le> (real j * 2 ^ 53 + 2 ^ 52) / 2 ^ 53"
      by (intro divide_right_mono) simp_all
    then show ?thesis by (simp add: rp add_divide_distrib)
  qed
  have jb: "j < 2 ^ 52"
  proof -
    have "(2::real) ^ 53 = 2 * 2 ^ 52" by simp
    then have "real j < 2 ^ 52" using n(2) n2 by linarith
    then show ?thesis by (metis of_nat_less_iff of_nat_numeral of_nat_power)
  qed
  have "fl (real j) = real j" using jb by (intro fl_of_nat) (simp add: less_trans [of j "2 ^ 52"])
  moreover have "fl (real j) \<le> fl (r * n)" using a by (rule fl_mono)
  ultimately have A: "real j \<le> fl (r * n)" by simp
  have "fl (of_int (2 * int j + 1) * 2 powi (- 1)) = of_int (2 * int j + 1) * 2 powi (- 1)"
    using jb by (intro fl_exact) simp_all
  then have "fl (real j + 1 / 2) = real j + 1 / 2" by (simp add: field_simps)
  moreover have "fl (r * n) \<le> fl (real j + 1 / 2)" using b by (rule fl_mono)
  ultimately have B: "fl (r * n) \<le> real j + 1 / 2" by simp
  have "\<lfloor>fl (r * n)\<rfloor> = int j" using A B by linarith
  then have "nat \<lfloor>fl (r * (real (Suc i) + 1))\<rfloor> = j" by (simp add: n_def)
  with d r0 r1 show ?thesis by blast
qed

lemma swap_drop:
  assumes "i < length arr" "j \<le> i"
  shows "drop i (arr[i := arr ! j, j := arr ! i]) = arr ! j # drop (Suc i) arr"
proof (cases "j = i")
  case True
  then show ?thesis using assms by (simp add: Cons_nth_drop_Suc)
next
  case False
  with assms have "j < i" by simp
  then have "drop i (arr[i := arr ! j, j := arr ! i]) = drop i (arr[i := arr ! j])"
    by simp
  also have "\<dots> = arr ! j # drop (Suc i) arr"
    using assms by (simp add: drop_update_swap flip: Cons_nth_drop_Suc)
  finally show ?thesis .
qed

lemma find_in_prefix:
  assumes "mset arr = mset ys" "drop (Suc n) arr = drop (Suc n) ys" "n < length arr"
  shows "\<exists>j\<le>n. arr ! j = ys ! n"
proof -
  have len: "length arr = length ys" using assms(1) by (rule mset_eq_length)
  have "mset (take (Suc n) arr) + mset (drop (Suc n) arr) = mset (take (Suc n) ys) + mset (drop (Suc n) ys)"
    using assms(1) by (simp flip: mset_append)
  then have "mset (take (Suc n) arr) = mset (take (Suc n) ys)" using assms(2) by simp
  then have "set (take (Suc n) arr) = set (take (Suc n) ys)" by (rule mset_eq_setD)
  moreover have "ys ! n \<in> set (take (Suc n) ys)"
    using assms(3) len by (simp add: in_set_conv_nth) (metis lessI nth_take)
  ultimately have "ys ! n \<in> set (take (Suc n) arr)" by simp
  then obtain j where "j < length (take (Suc n) arr)" "take (Suc n) arr ! j = ys ! n"
    by (auto simp: in_set_conv_nth)
  then show ?thesis using assms(3) by (intro exI [of _ j]) simp
qed

lemma shuffle_loop_reaches:
  assumes "mset arr = mset ys" "drop (Suc i) arr = drop (Suc i) ys" "i < length arr"
    and "length arr < 2 ^ 32"
  shows "\<exists>rnd. Math_random rnd \<and> shuffle_loop i rnd arr = ys"
  using assms
proof (induction i arbitrary: arr)
  case 0
  have len: "length arr = length ys" using "0.prems"(1) by (rule mset_eq_length)
  from find_in_prefix [OF "0.prems"(1,2,3)] have "arr ! 0 = ys ! 0" by simp
  then have "arr = ys"
    using "0.prems"(2,3) len by (cases arr; cases ys) simp_all
  then show ?case by (intro exI [of _ "\<lambda>_. 0"]) simp
next
  case (Suc i)
  have len: "length arr = length ys" using Suc.prems(1) by (rule mset_eq_length)
  from find_in_prefix [OF Suc.prems(1,2,3)] obtain j where
    j: "j \<le> Suc i" "arr ! j = ys ! Suc i" by blast
  let ?arr' = "arr[Suc i := arr ! j, j := arr ! Suc i]"
  have jl: "j < length arr" using j(1) Suc.prems(3) by simp
  have m: "mset ?arr' = mset ys" using Suc.prems(1,3) jl by (simp add: mset_swap)
  have "drop (Suc i) ?arr' = arr ! j # drop (Suc (Suc i)) arr"
    using Suc.prems(3) j(1) by (rule swap_drop)
  also have "\<dots> = drop (Suc i) ys"
    using Suc.prems(2,3) j(2) len by (simp add: Cons_nth_drop_Suc)
  finally have d: "drop (Suc i) ?arr' = drop (Suc i) ys" .
  have "i < length ?arr'" "length ?arr' < 2 ^ 32" using Suc.prems(3,4) by simp_all
  from Suc.IH [OF m d this] obtain rnd' where
    rnd': "Math_random rnd'" "shuffle_loop i rnd' ?arr' = ys" by blast
  have "i < 2 ^ 32" using Suc.prems(3,4) by simp
  from double_choice [OF j(1) this] obtain r where
    r: "double r" "0 \<le> r" "r < 1" "nat \<lfloor>fl (r * (real (Suc i) + 1))\<rfloor> = j" by blast
  define rnd where "rnd = (\<lambda>k. case k of 0 \<Rightarrow> r | Suc k' \<Rightarrow> rnd' k')"
  have "Math_random rnd"
    using r rnd'(1) by (auto simp: rnd_def Math_random_def split: nat.split)
  moreover have "shuffle_loop (Suc i) rnd arr = ys"
  proof -
    have "rnd 0 = r" "(\<lambda>k. rnd (Suc k)) = rnd'" by (simp_all add: rnd_def)
    then have "shuffle_loop (Suc i) rnd arr = shuffle_loop i rnd' ?arr'"
      using r(4) by (simp only: shuffle_loop.simps Let_def)
    then show ?thesis using rnd'(2) by simp
  qed
  ultimately show ?case by blast
qed

lemma shuffle_reaches:
  assumes "mset ys = mset arr" "length arr < 2 ^ 32"
  shows "\<exists>rnd. Math_random rnd \<and> shuffle rnd arr = ys"
proof (cases arr)
  case Nil
  then show ?thesis using assms by (intro exI [of _ "\<lambda>_. 0"]) (simp add: shuffle_def)
next
  case (Cons a list)
  have len: "length arr = length ys" using assms(1) by (metis mset_eq_length)
  have "\<exists>rnd. Math_random rnd \<and> shuffle_loop (length arr - 1) rnd arr = ys"
    using assms Cons len by (intro shuffle_loop_reaches) simp_all
  then show ?thesis by (simp add: shuffle_def)
qed

lemma shuffle_loop_above:
  assumes "Math_random rnd" "i < m"
  shows "shuffle_loop i rnd arr ! m = arr ! m"
  using assms
proof (induction i arbitrary: rnd arr)
  case 0
  then show ?case by simp
next
  case (Suc i)
  let ?j = "nat \<lfloor>fl (rnd 0 * (real (Suc i) + 1))\<rfloor>"
  have j: "?j \<le> Suc i" using Suc.prems(1) by (rule choice_le)
  have "shuffle_loop (Suc i) rnd arr ! m
      = shuffle_loop i (\<lambda>k. rnd (Suc k)) (arr[Suc i := arr ! ?j, ?j := arr ! Suc i]) ! m"
    by (simp only: shuffle_loop.simps Let_def)
  also have "\<dots> = (arr[Suc i := arr ! ?j, ?j := arr ! Suc i]) ! m"
    using Suc.prems by (intro Suc.IH Math_random_tl) simp_all
  also have "\<dots> = arr ! m" using j Suc.prems(2) by simp
  finally show ?case .
qed

lemma shuffle_loop_choices:
  assumes "Math_random rnd" "Math_random rnd'"
    and "distinct arr" "i < length arr"
    and "shuffle_loop i rnd arr = shuffle_loop i rnd' arr"
  shows "\<forall>k<i. choice (Suc i) rnd k = choice (Suc i) rnd' k"
  using assms
proof (induction i arbitrary: rnd rnd' arr)
  case 0
  then show ?case by simp
next
  case (Suc i)
  let ?j = "nat \<lfloor>fl (rnd 0 * (real (Suc i) + 1))\<rfloor>"
  let ?j' = "nat \<lfloor>fl (rnd' 0 * (real (Suc i) + 1))\<rfloor>"
  let ?a = "arr[Suc i := arr ! ?j, ?j := arr ! Suc i]" and ?a' = "arr[Suc i := arr ! ?j', ?j' := arr ! Suc i]"
  let ?r = "\<lambda>k. rnd (Suc k)" and ?r' = "\<lambda>k. rnd' (Suc k)"
  have j1: "?j \<le> Suc i" using Suc.prems(1) by (rule choice_le)
  have j2: "?j' \<le> Suc i" using Suc.prems(2) by (rule choice_le)
  note j = j1 j2
  have t: "Math_random ?r" "Math_random ?r'" using Suc.prems(1,2) by (simp_all add: Math_random_tl)
  have e: "shuffle_loop i ?r ?a = shuffle_loop i ?r' ?a'"
    using Suc.prems(5) by (simp only: shuffle_loop.simps Let_def)
  have "shuffle_loop i ?r ?a ! Suc i = ?a ! Suc i" "shuffle_loop i ?r' ?a' ! Suc i = ?a' ! Suc i"
    using t by (simp_all add: shuffle_loop_above)
  with e have "?a ! Suc i = ?a' ! Suc i" by simp
  moreover have "?a ! Suc i = arr ! ?j" "?a' ! Suc i = arr ! ?j'"
    using j Suc.prems(4) by (simp_all add: nth_list_update)
  ultimately have "arr ! ?j = arr ! ?j'" by simp
  then have jj: "?j = ?j'"
    using Suc.prems(3,4) j by (simp add: nth_eq_iff_index_eq)
  have d: "distinct ?a" using Suc.prems(3,4) j
    by (metis distinct_swap le_imp_less_Suc less_Suc_eq_le less_le_trans not_less_eq_eq order_refl)
  have "\<forall>k<i. choice (Suc i) ?r k = choice (Suc i) ?r' k"
    using t Suc.prems(4) d e unfolding jj [symmetric]
    by (intro Suc.IH [where arr = ?a]) simp_all
  then have "\<forall>k<i. choice (Suc (Suc i)) rnd (Suc k) = choice (Suc (Suc i)) rnd' (Suc k)"
    by (simp add: choice_def)
  moreover have "choice (Suc (Suc i)) rnd 0 = choice (Suc (Suc i)) rnd' 0"
    using jj by (simp add: choice_def)
  ultimately show ?case by (auto simp: less_Suc_eq_0_disj)
qed

lemma shuffle_choices:
  assumes "Math_random rnd" "Math_random rnd'"
    and "distinct arr" "shuffle rnd arr = shuffle rnd' arr"
  shows "\<forall>k<length arr - 1. choice (length arr) rnd k = choice (length arr) rnd' k"
proof (cases arr)
  case Nil
  then show ?thesis by simp
next
  case (Cons a list)
  then have "length arr - 1 < length arr" "Suc (length arr - 1) = length arr" by simp_all
  with assms shuffle_loop_choices [of rnd rnd' arr "length arr - 1"] show ?thesis
    unfolding shuffle_def by simp
qed

lemma choice_range:
  assumes "Math_random rnd" "k < n - 1"
  shows "choice n rnd k \<le> n - 1 - k"
proof -
  from assms(2) obtain i where i: "n - 1 - k = Suc i" by (cases "n - 1 - k") simp_all
  have "Math_random (\<lambda>m. rnd (m + k))" using assms(1) by (simp add: Math_random_def)
  from choice_le [OF this, of i] show ?thesis unfolding choice_def i by simp
qed

subsection \<open>Round one\<close>

lemma startGame_images:
  assumes "locs \<noteq> []" "1 \<le> roundsTotal s"
  shows "images (state_of (startGame (Some locs) rnd s)) = shuffle rnd locs"
  using startGame_nonempty [OF assms, of rnd] by auto

lemma double_quarter: "double (1 / 4)"
proof (rule double_unit)
  show "fl (1 / 4) = 1 / 4" using fl_powi [of "- 2"] by simp
qed simp_all

lemma shuffle_two_quarter: "shuffle (\<lambda>_. 1 / 4) [paris, quito] = [quito, paris]"
  by (simp add: shuffle_def fl_half)

lemma shuffle_two_zero_choice: "choice 2 (\<lambda>_. 0) 0 = 0"
  by (simp add: choice_def)

text \<open>
  C7: with a non-empty dataset (random numbers as \<^verbatim>\<open>Math.random\<close> returns them, and at
  least one round configured) \<^verbatim>\<open>startGame\<close> stores the shuffled dataset, a permutation
  of the input, sets \<open>totalScore\<close> to 0, and leaves round 1 on: \<open>roundNum = 1\<close>,
  \<open>currentIndex = 0\<close>, the first location of the shuffled list shown, no guess made yet.
  The shuffle is the one of Fisher and Yates: the iteration at index \<open>i\<close> chooses an index
  from \<open>0\<close> to \<open>i\<close>; every permutation of the dataset (of fewer than \<open>2 ^ 32\<close> entries,
  the bound on an array) is the stored list for some random numbers; and for a dataset
  without duplicates the stored list determines the index chosen in every iteration, so
  that each permutation comes from exactly one sequence of choices. This is the
  combinatorial content of the uniformity; a probability on the random numbers is not
  part of the statement.
\<close>

theorem startGame_begins_round_one:
  "locs \<noteq> [] \<and> Math_random rnd \<and> 1 \<le> roundsTotal s \<longrightarrow>
   (\<exists>s'. startGame (Some locs) rnd s = Returned s'
      \<and> images s' = shuffle rnd locs \<and> mset (images s') = mset locs
      \<and> totalScore s' = 0 \<and> scoreEl s' = 0 \<and> roundNum s' = 1 \<and> currentIndex s' = 0
      \<and> index (images s') (currentIndex s') = Some (images s' ! 0)
      \<and> sceneImage_src s' = url (images s' ! 0)
      \<and> \<not> hasGuessed s' \<and> round_active 0 s'
      \<and> (\<forall>k<length locs - 1. choice (length locs) rnd k \<le> length locs - 1 - k)
      \<and> (\<forall>ys. mset ys = mset locs \<and> length locs < 2 ^ 32 \<longrightarrow>
            (\<exists>rnd'. Math_random rnd'
               \<and> images (state_of (startGame (Some locs) rnd' s)) = ys))
      \<and> (\<forall>rnd'. Math_random rnd' \<and> distinct locs
               \<and> images (state_of (startGame (Some locs) rnd' s)) = images s' \<longrightarrow>
            (\<forall>k<length locs - 1. choice (length locs) rnd' k = choice (length locs) rnd k)))"
proof (intro impI, elim conjE)
  assume locs: "locs \<noteq> []" and rnd: "Math_random rnd" and rt: "1 \<le> roundsTotal s"
  let ?s0 = "s\<lparr>images := shuffle rnd locs, roundNum := 0, totalScore := 0, scoreEl := 0,
                 nextBtn_disabled := True, startBtn_disabled := True\<rparr>"
  let ?s' = "resetRoundState (showImage (shuffle rnd locs ! 0)
       (?s0\<lparr>roundNum := 1, roundEl := 1, currentIndex := 0\<rparr>))"
  have "startGame (Some locs) rnd s = proceedNextRound ?s0"
    using locs by (simp add: startGame_def loadDataset_def)
  also have "\<dots> = Returned ?s'"
    using locs rt by (simp add: proceedNextRound_next)
  finally have st: "startGame (Some locs) rnd s = Returned ?s'" .
  have im: "images ?s' = shuffle rnd locs" by (simp add: resetRoundState_def showImage_def)
  have ms: "mset (images ?s') = mset locs"
    using rnd by (simp add: resetRoundState_def showImage_def shuffle_mset)
  have ra: "round_active 0 ?s'"
    using locs rt by (simp add: round_active_def resetRoundState_def showImage_def)
  have fields: "totalScore ?s' = 0 \<and> scoreEl ?s' = 0 \<and> roundNum ?s' = 1 \<and> currentIndex ?s' = 0
      \<and> index (images ?s') (currentIndex ?s') = Some (images ?s' ! 0)
      \<and> sceneImage_src ?s' = url (images ?s' ! 0) \<and> \<not> hasGuessed ?s'"
    using locs by (simp add: resetRoundState_def showImage_def index_def)
  have range: "\<forall>k<length locs - 1. choice (length locs) rnd k \<le> length locs - 1 - k"
    using choice_range [OF rnd] by blast
  have reach: "\<forall>ys. mset ys = mset locs \<and> length locs < 2 ^ 32 \<longrightarrow>
      (\<exists>rnd'. Math_random rnd' \<and> images (state_of (startGame (Some locs) rnd' s)) = ys)"
  proof (intro allI impI, elim conjE)
    fix ys assume "mset ys = mset locs" "length locs < 2 ^ 32"
    from shuffle_reaches [OF this] obtain rnd' where
      "Math_random rnd'" "shuffle rnd' locs = ys" by blast
    then show "\<exists>rnd'. Math_random rnd' \<and> images (state_of (startGame (Some locs) rnd' s)) = ys"
      using startGame_images [OF locs rt] by (intro exI [of _ rnd']) simp
  qed
  have inj: "\<forall>rnd'. Math_random rnd' \<and> distinct locs
               \<and> images (state_of (startGame (Some locs) rnd' s)) = images ?s' \<longrightarrow>
            (\<forall>k<length locs - 1. choice (length locs) rnd' k = choice (length locs) rnd k)"
  proof (intro allI impI, elim conjE)
    fix rnd' k
    assume a: "Math_random rnd'" "distinct locs"
      "images (state_of (startGame (Some locs) rnd' s)) = images ?s'" "k < length locs - 1"
    from a(3) have "shuffle rnd' locs = shuffle rnd locs"
      by (simp only: startGame_images [OF locs rt] im)
    from shuffle_choices [OF a(1) rnd a(2) this] a(4)
    show "choice (length locs) rnd' k = choice (length locs) rnd k" by simp
  qed
  from st im ms fields ra range reach inj
  show "\<exists>s'. startGame (Some locs) rnd s = Returned s'
      \<and> images s' = shuffle rnd locs \<and> mset (images s') = mset locs
      \<and> totalScore s' = 0 \<and> scoreEl s' = 0 \<and> roundNum s' = 1 \<and> currentIndex s' = 0
      \<and> index (images s') (currentIndex s') = Some (images s' ! 0)
      \<and> sceneImage_src s' = url (images s' ! 0)
      \<and> \<not> hasGuessed s' \<and> round_active 0 s'
      \<and> (\<forall>k<length locs - 1. choice (length locs) rnd k \<le> length locs - 1 - k)
      \<and> (\<forall>ys. mset ys = mset locs \<and> length locs < 2 ^ 32 \<longrightarrow>
            (\<exists>rnd'. Math_random rnd'
               \<and> images (state_of (startGame (Some locs) rnd' s)) = ys))
      \<and> (\<forall>rnd'. Math_random rnd' \<and> distinct locs
               \<and> images (state_of (startGame (Some locs) rnd' s)) = images s' \<longrightarrow>
            (\<forall>k<length locs - 1. choice (length locs) rnd' k = choice (length locs) rnd k))"
    by (intro exI [of _ ?s']) blast
qed

theorem startGame_begins_round_one_witness:
  "[paris, quito] \<noteq> [] \<and> Math_random (\<lambda>_. 0) \<and> 1 \<le> roundsTotal init_state
   \<and> (\<exists>s'. startGame (Some [paris, quito]) (\<lambda>_. 0) init_state = Returned s'
        \<and> images s' = [quito, paris] \<and> mset (images s') = mset [paris, quito]
        \<and> totalScore s' = 0 \<and> roundNum s' = 1 \<and> currentIndex s' = 0
        \<and> index (images s') (currentIndex s') = Some quito
        \<and> sceneImage_src s' = url quito \<and> \<not> hasGuessed s')
   \<and> choice 2 (\<lambda>_. 0) 0 \<le> 1
   \<and> (\<exists>rnd'. Math_random rnd'
         \<and> images (state_of (startGame (Some [paris, quito]) rnd' init_state)) = [paris, quito])
   \<and> Math_random (\<lambda>_. 1 / 4) \<and> distinct [paris, quito]
   \<and> images (state_of (startGame (Some [paris, quito]) (\<lambda>_. 1 / 4) init_state)) = [quito, paris]
   \<and> choice 2 (\<lambda>_. 1 / 4) 0 = choice 2 (\<lambda>_. 0) 0"
proof -
  have h: "[paris, quito] \<noteq> [] \<and> Math_random (\<lambda>_. 0) \<and> 1 \<le> roundsTotal init_state"
    by (simp add: init_fields)
  have q: "Math_random (\<lambda>_. 1 / 4)" using double_quarter by (simp add: Math_random_def)
  have d: "distinct [paris, quito]" by (simp add: paris_def quito_def)
  have i: "images (state_of (startGame (Some [paris, quito]) (\<lambda>_. 1 / 4) init_state)) = [quito, paris]"
    by (simp add: startGame_images init_fields shuffle_two_quarter)
  from startGame_begins_round_one [of "[paris, quito]" "\<lambda>_. 0" init_state, THEN mp, OF h]
  obtain s' where s': "startGame (Some [paris, quito]) (\<lambda>_. 0) init_state = Returned s'"
    "images s' = shuffle (\<lambda>_. 0) [paris, quito]" "mset (images s') = mset [paris, quito]"
    "totalScore s' = 0" "roundNum s' = 1" "currentIndex s' = 0"
    "index (images s') (currentIndex s') = Some (images s' ! 0)"
    "sceneImage_src s' = url (images s' ! 0)" "\<not> hasGuessed s'"
    and range: "\<forall>k<length [paris, quito] - 1.
        choice (length [paris, quito]) (\<lambda>_. 0) k \<le> length [paris, quito] - 1 - k"
    and reach: "\<forall>ys. mset ys = mset [paris, quito] \<and> length [paris, quito] < 2 ^ 32 \<longrightarrow>
        (\<exists>rnd'. Math_random rnd'
           \<and> images (state_of (startGame (Some [paris, quito]) rnd' init_state)) = ys)"
    and inj: "\<forall>rnd'. Math_random rnd' \<and> distinct [paris, quito]
           \<and> images (state_of (startGame (Some [paris, quito]) rnd' init_state)) = images s' \<longrightarrow>
        (\<forall>k<length [paris, quito] - 1.
           choice (length [paris, quito]) rnd' k = choice (length [paris, quito]) (\<lambda>_. 0) k)"
    by blast
  have im: "images s' = [quito, paris]" using s'(2) by (simp add: shuffle_two)
  have a: "\<exists>s'. startGame (Some [paris, quito]) (\<lambda>_. 0) init_state = Returned s'
        \<and> images s' = [quito, paris] \<and> mset (images s') = mset [paris, quito]
        \<and> totalScore s' = 0 \<and> roundNum s' = 1 \<and> currentIndex s' = 0
        \<and> index (images s') (currentIndex s') = Some quito
        \<and> sceneImage_src s' = url quito \<and> \<not> hasGuessed s'"
    using s' by (intro exI [of _ s']) (simp add: shuffle_two)
  have l: "length [paris, quito] = 2" by simp
  have b: "choice 2 (\<lambda>_. 0) 0 \<le> 1" using range unfolding l by simp
  have c: "\<exists>rnd'. Math_random rnd'
         \<and> images (state_of (startGame (Some [paris, quito]) rnd' init_state)) = [paris, quito]"
    using reach [THEN spec, of "[paris, quito]"] by simp
  have e: "choice 2 (\<lambda>_. 1 / 4) 0 = choice 2 (\<lambda>_. 0) 0"
    using inj [THEN spec, of "\<lambda>_. 1 / 4"] q d i im unfolding l by simp
  from h a b c q d i e show ?thesis by (intro conjI) simp_all
qed

subsection \<open>A load that settles during a round\<close>

text \<open>
  C9 says that while a round is on the active location is \<open>images[roundNum - 1]\<close> and
  stays the same. \<^verbatim>\<open>startGame\<close> disables the Start button only after its
  \<^verbatim>\<open>await\<close>, so a second call can be suspended while the first begins round 1. In the
  run below the second fetch then fails: round 1 is still on and waits for its guess, the
  round number is unchanged, and the active location, \<open>paris\<close> before, is
  \<^verbatim>\<open>undefined\<close> after.
\<close>

theorem active_location_lost:
  "roundNum (snd (run double_start (0, init_state))) = 1
   \<and> \<not> hasGuessed (snd (run double_start (0, init_state)))
   \<and> index (images (snd (run double_start (0, init_state))))
        (roundNum (snd (run double_start (0, init_state))) - 1) = Some paris
   \<and> stale_round = snd (dispatch (LoadSettled None (\<lambda>_. 0)) (run double_start (0, init_state)))
   \<and> roundNum stale_round = 1
   \<and> \<not> hasGuessed stale_round
   \<and> index (images stale_round) (roundNum stale_round - 1) = None"
  by (simp add: stale_round_def double_start_def handler_defs sample_defs)

text \<open>
  C10 says that whenever a guess can be scored, \<open>currentIndex\<close> is a valid index of
  \<^verbatim>\<open>images\<close>. In the state reached by the same run both guards of \<^verbatim>\<open>onMapClick\<close>
  pass, \<^verbatim>\<open>images\<close> is empty and \<open>currentIndex\<close> is 0: the click places the guess
  marker and then stops at the \<^verbatim>\<open>TypeError\<close> of reading \<^verbatim>\<open>actual.lat\<close>.
\<close>

theorem map_click_after_failed_reload:
  "roundNum stale_round = 1 \<and> \<not> hasGuessed stale_round
   \<and> currentIndex stale_round = 0 \<and> images stale_round = []
   \<and> index (images stale_round) (currentIndex stale_round) = None
   \<and> onMapClick (0, 0) stale_round = Threw TypeError (stale_round\<lparr>guessMarker := Some (0, 0)\<rparr>)"
  by (simp add: stale_round_def double_start_def handler_defs sample_defs)

subsection \<open>What holds in every run, and what holds without the second call\<close>

text \<open>
  The counters are right after every event: \<open>roundNum\<close> is in \<open>[0, roundsTotal]\<close> and
  \<open>currentIndex = roundNum - 1\<close> during a round (\<open>counter_inv_dispatch\<close>). That
  \<open>images[currentIndex]\<close> is defined during a round is kept by every event but a load
  that settles empty while a round is on (\<open>round_inv_dispatch\<close>), and such a load needs
  a call of \<^verbatim>\<open>startGame\<close> suspended during a game: when Start is never clicked while a
  call is suspended, there is none (\<open>single_flight_run\<close>), and then every guess in an
  open round is scored (\<open>single_flight_scores\<close>).
\<close>

lemma proceedNextRound_round_inv:
  assumes "0 \<le> roundNum s" "0 \<le> roundsTotal s"
  shows "round_inv (state_of (proceedNextRound s))"
  using assms
  by (auto simp: proceedNextRound_def Let_def round_inv_def counter_inv_def endGame_def
      resetRoundState_def showImage_def index_def split: option.split)

lemma onMapClick_counters:
  "roundNum (state_of (onMapClick g s)) = roundNum s
   \<and> currentIndex (state_of (onMapClick g s)) = currentIndex s
   \<and> images (state_of (onMapClick g s)) = images s
   \<and> roundsTotal (state_of (onMapClick g s)) = roundsTotal s
   \<and> startBtn_disabled (state_of (onMapClick g s)) = startBtn_disabled s"
  by (simp add: onMapClick_def Let_def split: option.split)

lemma mapClick_round_inv: "round_inv s \<Longrightarrow> round_inv (mapClick g s)"
  by (simp add: round_inv_def counter_inv_def mapClick_def onMapClick_counters)

lemma nextClick_round_inv:
  assumes "round_inv s"
  shows "round_inv (nextClick s)"
proof -
  from assms have r: "0 \<le> roundNum s" "0 \<le> roundsTotal s"
    by (simp_all add: round_inv_def counter_inv_def)
  have "round_inv (endGame s)" using r by (simp add: round_inv_def counter_inv_def endGame_def)
  then show ?thesis
    using assms r by (simp add: nextClick_def nextBtn_click_def proceedNextRound_round_inv)
qed

lemma startGame_round_inv:
  assumes "round_inv s" "res \<noteq> None \<and> res \<noteq> Some [] \<or> roundNum s = 0"
  shows "round_inv (state_of (startGame res rnd s))"
proof (cases "res = None \<or> res = Some []")
  case True
  then show ?thesis using assms by (auto simp: startGame_empty round_inv_def counter_inv_def)
next
  case False
  then obtain locs where l: "res = Some locs" "locs \<noteq> []" by auto
  from assms(1) have "0 \<le> roundsTotal s" by (simp add: round_inv_def counter_inv_def)
  then show ?thesis
    using l by (simp add: startGame_def loadDataset_def proceedNextRound_round_inv)
qed

lemma startGame_counter_inv:
  assumes "counter_inv s"
  shows "counter_inv (state_of (startGame res rnd s))"
proof (cases "res = None \<or> res = Some []")
  case True
  then show ?thesis using assms by (auto simp: startGame_empty counter_inv_def)
next
  case False
  then obtain locs where l: "res = Some locs" "locs \<noteq> []" by auto
  from assms(1) have "0 \<le> roundsTotal s" by (simp add: counter_inv_def)
  then have "round_inv (state_of (startGame res rnd s))"
    using l by (simp add: startGame_def loadDataset_def proceedNextRound_round_inv)
  then show ?thesis by (simp add: round_inv_def)
qed

lemma counter_inv_dispatch:
  assumes "counter_inv (snd c)"
  shows "counter_inv (snd (dispatch ev c))"
proof (cases c)
  case (Pair p s)
  with assms have s: "counter_inv s" by simp
  then have r: "0 \<le> roundNum s" "0 \<le> roundsTotal s" by (simp_all add: counter_inv_def)
  show ?thesis
  proof (cases ev)
    case StartClick
    then show ?thesis using Pair s by simp
  next
    case (LoadSettled res rnd)
    then show ?thesis using Pair s by (cases p) (simp_all add: startGame_counter_inv)
  next
    case (MapClick g)
    then show ?thesis using Pair s by (simp add: counter_inv_def mapClick_def onMapClick_counters)
  next
    case NextClick
    have "counter_inv (endGame s)" using r by (simp add: counter_inv_def endGame_def)
    moreover have "counter_inv (state_of (proceedNextRound s))"
      using proceedNextRound_round_inv [OF r] by (simp add: round_inv_def)
    ultimately show ?thesis using Pair s NextClick by (simp add: nextClick_def nextBtn_click_def)
  qed
qed

lemma round_inv_dispatch:
  assumes "round_inv (snd c)" "\<not> (empty_load ev \<and> roundNum (snd c) \<noteq> 0 \<and> 0 < fst c)"
  shows "round_inv (snd (dispatch ev c))"
proof (cases c)
  case (Pair p s)
  with assms have s: "round_inv s" by simp
  show ?thesis
  proof (cases ev)
    case StartClick
    then show ?thesis using Pair s by simp
  next
    case (LoadSettled res rnd)
    show ?thesis
    proof (cases p)
      case 0
      then show ?thesis using Pair s LoadSettled by simp
    next
      case (Suc p')
      have "res \<noteq> None \<and> res \<noteq> Some [] \<or> roundNum s = 0"
        using assms(2) Pair LoadSettled Suc by (cases res; cases "the res") auto
      then show ?thesis using Pair s LoadSettled Suc by (simp add: startGame_round_inv)
    qed
  next
    case (MapClick g)
    then show ?thesis using Pair s by (simp add: mapClick_round_inv)
  next
    case NextClick
    then show ?thesis using Pair s by (simp add: nextClick_round_inv)
  qed
qed

lemma round_inv_scores:
  assumes "round_inv s" "roundNum s \<noteq> 0" "\<not> hasGuessed s"
  shows "\<exists>s'. onMapClick g s = Returned s' \<and> hasGuessed s'
     \<and> index (images s) (currentIndex s) = Some (images s ! nat (roundNum s - 1))"
proof -
  from assms(1,2) have "index (images s) (currentIndex s) = Some (images s ! nat (roundNum s - 1))"
    by (simp add: round_inv_def counter_inv_def index_def)
  from onMapClick_scored [OF assms(2,3) this, of g] this show ?thesis by blast
qed

lemma init_invariants: "round_inv init_state \<and> single_flight (0, init_state)"
  by (simp add: round_inv_def counter_inv_def single_flight_def init_state_def)

lemma proceedNextRound_buttons:
  "startBtn_disabled s \<Longrightarrow>
     roundNum (state_of (proceedNextRound s)) \<noteq> 0 \<longrightarrow> startBtn_disabled (state_of (proceedNextRound s))"
  "nextBtn_disabled s \<or> roundNum s + 1 \<noteq> 0 \<Longrightarrow>
     \<not> nextBtn_disabled (state_of (proceedNextRound s)) \<longrightarrow> roundNum (state_of (proceedNextRound s)) \<noteq> 0"
  by (auto simp: proceedNextRound_def Let_def endGame_def resetRoundState_def showImage_def
      split: option.split)

lemma single_flight_dispatch:
  assumes "single_flight c" "round_inv (snd c)" "ev = StartClick \<longrightarrow> fst c = 0"
  shows "single_flight (dispatch ev c) \<and> round_inv (snd (dispatch ev c))"
proof -
  obtain p s where c: "c = (p, s)" by (cases c)
  from assms(1) c have sf: "p \<le> 1" "roundNum s \<noteq> 0 \<longrightarrow> p = 0 \<and> startBtn_disabled s"
    "\<not> nextBtn_disabled s \<longrightarrow> roundNum s \<noteq> 0"
    by (simp_all add: single_flight_def)
  from assms(2) c have r: "0 \<le> roundNum s" by (simp add: round_inv_def counter_inv_def)
  have "round_inv (snd (dispatch ev c))"
    using assms(2) sf c by (intro round_inv_dispatch) auto
  moreover have "single_flight (dispatch ev c)"
  proof (cases ev)
    case StartClick
    then show ?thesis using assms(3) sf c by (auto simp: single_flight_def)
  next
    case (LoadSettled res rnd)
    show ?thesis
    proof (cases p)
      case 0
      then show ?thesis using sf c LoadSettled by (simp add: single_flight_def)
    next
      case (Suc p')
      with sf have p': "p' = 0" and z: "roundNum s = 0" and nb: "nextBtn_disabled s" by auto
      show ?thesis
      proof (cases "res = None \<or> res = Some []")
        case True
        then show ?thesis using c LoadSettled Suc p' z nb
          by (auto simp: single_flight_def startGame_empty)
      next
        case False
        then obtain locs where l: "res = Some locs" "locs \<noteq> []" by auto
        let ?t = "s\<lparr>images := shuffle rnd locs, roundNum := 0, totalScore := 0, scoreEl := 0,
                 nextBtn_disabled := True, startBtn_disabled := True\<rparr>"
        have "startGame res rnd s = proceedNextRound ?t"
          using l by (simp add: startGame_def loadDataset_def)
        then show ?thesis
          using c LoadSettled Suc p' proceedNextRound_buttons [of ?t]
          by (simp add: single_flight_def)
      qed
    qed
  next
    case (MapClick g)
    have "\<not> nextBtn_disabled (state_of (onMapClick g s)) \<longrightarrow> roundNum s \<noteq> 0"
      using sf(3) by (auto simp: onMapClick_def Let_def split: option.split)
    then show ?thesis using sf c MapClick
      by (simp add: single_flight_def mapClick_def onMapClick_counters)
  next
    case NextClick
    show ?thesis
    proof (cases "nextBtn_disabled s")
      case True
      then show ?thesis using assms(1) c NextClick by (simp add: nextClick_def)
    next
      case False
      with sf have n: "roundNum s \<noteq> 0" "p = 0" "startBtn_disabled s" by auto
      have "roundNum s + 1 \<noteq> 0" using r by simp
      then show ?thesis
        using False n c NextClick proceedNextRound_buttons [of s]
        by (simp add: single_flight_def nextClick_def nextBtn_click_def endGame_def)
    qed
  qed
  ultimately show ?thesis by simp
qed

lemma single_flight_run:
  assumes "single_flight c" "round_inv (snd c)" "single_runs evs c"
  shows "single_flight (run evs c) \<and> round_inv (snd (run evs c))"
  using assms
proof (induction evs arbitrary: c)
  case Nil
  then show ?case by simp
next
  case (Cons ev evs)
  from Cons.prems have "single_flight (dispatch ev c) \<and> round_inv (snd (dispatch ev c))"
    by (intro single_flight_dispatch) simp_all
  then show ?case using Cons.prems(3) Cons.IH [of "dispatch ev c"] by simp
qed

lemma single_flight_scores:
  assumes "single_runs evs (0, init_state)"
    and "roundNum (snd (run evs (0, init_state))) \<noteq> 0"
    and "\<not> hasGuessed (snd (run evs (0, init_state)))"
  shows "\<exists>s'. onMapClick g (snd (run evs (0, init_state))) = Returned s' \<and> hasGuessed s'"
proof -
  have "round_inv (snd (run evs (0, init_state)))"
    using single_flight_run [OF _ _ assms(1)] init_invariants by simp
  from round_inv_scores [OF this assms(2,3), of g] show ?thesis by blast
qed


end
